theory Spec2Isabelle
  imports Main "HOL-Library.Word" "HOL-Library.AList"
begin

unbundle bit_operations_syntax

section \<open>Data model of pdx\_data.py\<close>

text \<open>
  A Python \<open>bytes\<close> value is a list of 8-bit words. A Python (unicode) string is the list
  of its code points, so that \<open>len\<close> counts characters and the Latin-1 codec can fail.
  The exceptions the codec can raise are values of \<open>error\<close>; the three
  \<open>raise NotImplementedError\<close> sites of the reader and the ones of the writer are the
  constructor \<open>NotImplementedError\<close>.
\<close>

type_synonym byte = "8 word"
type_synonym bytes = "byte list"
type_synonym pystr = "nat list"

datatype error =
    NotImplementedError
  | StructError
  | UnicodeDecodeError
  | UnicodeEncodeError
  | IndexError
  | TypeError
  | ValueError
  | FileNotFoundError

text \<open>
  The elements of an attribute array: a Python int (unbounded), a float, or a string.
  A float is represented by its IEEE-754 binary32 pattern, the value type of the format's
  float arrays; \<open>pack("f")\<close> writes the four bytes of the pattern, low byte first, and
  \<open>unpack("f")\<close> reads them back.
\<close>

datatype pyval = PInt int | PFloat "32 word" | PStr pystr

datatype pytype = TyInt | TyFloat | TyStr

fun type_of :: "pyval \<Rightarrow> pytype" where
  "type_of (PInt _) = TyInt"
| "type_of (PFloat _) = TyFloat"
| "type_of (PStr _) = TyStr"

fun is_int :: "pyval \<Rightarrow> bool" where
  "is_int (PInt _) = True"
| "is_int _ = False"

fun is_float :: "pyval \<Rightarrow> bool" where
  "is_float (PFloat _) = True"
| "is_float _ = False"

fun is_str :: "pyval \<Rightarrow> bool" where
  "is_str (PStr _) = True"
| "is_str _ = False"

text \<open>
  An \<open>xml.etree\<close> element: its tag, its attribute dictionary (a Python 3 dict, kept as an
  association list in insertion order) and its children.
\<close>

datatype element = Element (tag: pystr) (attrib: "(pystr \<times> pyval list) list") (children: "element list")

definition get :: "element \<Rightarrow> pystr \<Rightarrow> pyval list option" where
  "get e k = map_of (attrib e) k"

definition find_child :: "element \<Rightarrow> pystr \<Rightarrow> element option" where
  "find_child e name = find (\<lambda>c. tag c = name) (children e)"

definition ascii :: "string \<Rightarrow> pystr" where
  "ascii s = map of_char s"

definition bind_err :: "error + 'a \<Rightarrow> ('a \<Rightarrow> error + 'b) \<Rightarrow> error + 'b" where
  "bind_err m f = (case m of Inl e \<Rightarrow> Inl e | Inr x \<Rightarrow> f x)"

section \<open>struct.pack and the codecs\<close>

definition le32 :: "32 word \<Rightarrow> bytes" where
  "le32 w = [ucast w, ucast (drop_bit 8 w), ucast (drop_bit 16 w), ucast (drop_bit 24 w)]"

definition pack_i :: "int \<Rightarrow> error + bytes" where
  "pack_i x = (if - (2 ^ 31) \<le> x \<and> x < 2 ^ 31 then Inr (le32 (word_of_int x)) else Inl StructError)"

definition pack_b :: "int \<Rightarrow> error + bytes" where
  "pack_b x = (if - 128 \<le> x \<and> x \<le> 127 then Inr [word_of_int x] else Inl StructError)"

fun pack_is :: "pyval list \<Rightarrow> error + bytes" where
  "pack_is [] = Inr []"
| "pack_is (PInt x # ds) = bind_err (pack_i x) (\<lambda>a. bind_err (pack_is ds) (\<lambda>b. Inr (a @ b)))"
| "pack_is (_ # ds) = Inl StructError"

fun pack_fs :: "pyval list \<Rightarrow> error + bytes" where
  "pack_fs [] = Inr []"
| "pack_fs (PFloat w # ds) = bind_err (pack_fs ds) (\<lambda>b. Inr (le32 w @ b))"
| "pack_fs (_ # ds) = Inl StructError"

definition encode_latin1 :: "pystr \<Rightarrow> error + bytes" where
  "encode_latin1 s = (if \<forall>c \<in> set s. c < 256 then Inr (map of_nat s) else Inl UnicodeEncodeError)"

definition decode_latin1 :: "bytes \<Rightarrow> pystr" where
  "decode_latin1 bs = map unat bs"

text \<open>\<open>.decode()\<close> of a single byte with the default codec (UTF-8).\<close>

definition decode_utf8_byte :: "byte \<Rightarrow> error + nat" where
  "decode_utf8_byte b = (if b < 0x80 then Inr (unat b) else Inl UnicodeDecodeError)"

section \<open>The writer\<close>

definition writeString :: "pystr \<Rightarrow> error + bytes" where
  "writeString string = encode_latin1 string"

definition writeObject :: "element \<Rightarrow> nat \<Rightarrow> error + bytes" where
  "writeObject obj_xml obj_depth =
     (let datastring = replicate obj_depth (0x5B :: byte);
          obj_name = tag obj_xml
      in if \<not> length obj_name < 64 then Inl NotImplementedError
         else bind_err (writeString obj_name) (\<lambda>s. Inr (datastring @ s @ [0])))"

definition writeData :: "pyval list \<Rightarrow> error + bytes" where
  "writeData data_array =
     (let types = type_of ` set data_array in
      if card types = 1 then
        (if list_all is_int data_array then
           bind_err (pack_i (int (length data_array))) (\<lambda>cnt.
           bind_err (pack_is data_array) (\<lambda>vals.
           Inr ([0x69] @ cnt @ vals)))
         else if list_all is_float data_array then
           bind_err (pack_i (int (length data_array))) (\<lambda>cnt.
           bind_err (pack_fs data_array) (\<lambda>vals.
           Inr ([0x66] @ cnt @ vals)))
         else if list_all is_str data_array then
           (case hd data_array of
              PStr s \<Rightarrow>
                bind_err (pack_i 1) (\<lambda>cnt.
                bind_err (pack_i (int (length s) + 1)) (\<lambda>len.
                bind_err (writeString s) (\<lambda>str.
                Inr ([0x73] @ cnt @ len @ str @ [0]))))
            | _ \<Rightarrow> Inl NotImplementedError)
         else Inl NotImplementedError)
      else if card types < 1 then Inr []
      else Inl NotImplementedError)"

text \<open>
  \<open>prop_data\<close> is what \<open>Element.get\<close> returned: \<open>None\<close> for a missing attribute, on which
  \<open>writeData\<close> raises a TypeError when it iterates over it.
\<close>

definition writeProperty :: "pystr \<Rightarrow> pyval list option \<Rightarrow> error + bytes" where
  "writeProperty prop_name prop_data =
     bind_err (pack_b (int (length prop_name))) (\<lambda>len.
     bind_err (writeString prop_name) (\<lambda>name.
     bind_err (case prop_data of None \<Rightarrow> Inl TypeError | Some d \<Rightarrow> writeData d) (\<lambda>dat.
     Inr ([0x21] @ len @ name @ dat))))"


text \<open>
  The loop \<open>for prop in [...]: if x.get(prop) is not None: datastring += writeProperty(prop, x.get(prop))\<close>.
\<close>

fun write_props :: "pystr list \<Rightarrow> element \<Rightarrow> error + bytes" where
  "write_props [] x = Inr []"
| "write_props (prop # props) x =
     bind_err (if get x prop \<noteq> None then writeProperty prop (get x prop) else Inr []) (\<lambda>a.
     bind_err (write_props props x) (\<lambda>b. Inr (a @ b)))"

text \<open>A sub-object of a mesh: \<open>x = mesh_xml.find(name)\<close>, written at depth 4 with its properties.\<close>

definition write_mesh_sub :: "element \<Rightarrow> pystr \<Rightarrow> pystr list \<Rightarrow> error + bytes" where
  "write_mesh_sub mesh_xml name props =
     (case find_child mesh_xml name of
        None \<Rightarrow> Inr []
      | Some x \<Rightarrow>
          bind_err (writeObject x 4) (\<lambda>a.
          bind_err (write_props props x) (\<lambda>b. Inr (a @ b))))"

text \<open>The loop \<open>for bone_xml in child_xml\<close> of a skeleton.\<close>

fun write_bones :: "element list \<Rightarrow> error + bytes" where
  "write_bones [] = Inr []"
| "write_bones (bone_xml # rest) =
     bind_err (writeObject bone_xml 4) (\<lambda>a.
     bind_err (write_props [ascii ''ix'', ascii ''pa'', ascii ''tx''] bone_xml) (\<lambda>b.
     bind_err (write_bones rest) (\<lambda>c. Inr (a @ b @ c))))"

definition mesh_props :: "pystr list" where
  "mesh_props = [ascii ''p'', ascii ''n'', ascii ''ta'', ascii ''u0'', ascii ''u1'', ascii ''u2'',
                 ascii ''u3'', ascii ''tri'', ascii ''boundingsphere'']"

text \<open>The body of the loop \<open>for child_xml in shape_xml\<close>.\<close>

definition write_child :: "element \<Rightarrow> error + bytes" where
  "write_child child_xml =
     bind_err (writeObject child_xml 3) (\<lambda>a.
     bind_err
       (if tag child_xml = ascii ''mesh'' then
          bind_err (write_props mesh_props child_xml) (\<lambda>p.
          bind_err (write_mesh_sub child_xml (ascii ''aabb'') [ascii ''min'', ascii ''max'']) (\<lambda>b.
          bind_err (write_mesh_sub child_xml (ascii ''material'')
                      [ascii ''shader'', ascii ''diff'', ascii ''n'', ascii ''spec'']) (\<lambda>m.
          bind_err (write_mesh_sub child_xml (ascii ''skin'')
                      [ascii ''bones'', ascii ''ix'', ascii ''w'']) (\<lambda>s.
          Inr (p @ b @ m @ s)))))
        else if tag child_xml = ascii ''skeleton'' then write_bones (children child_xml)
        else Inr [])
       (\<lambda>b. Inr (a @ b)))"

fun write_children :: "element list \<Rightarrow> error + bytes" where
  "write_children [] = Inr []"
| "write_children (child_xml # rest) =
     bind_err (write_child child_xml) (\<lambda>a.
     bind_err (write_children rest) (\<lambda>b. Inr (a @ b)))"

text \<open>The loop \<open>for shape_xml in object_xml\<close>.\<close>

fun write_shapes :: "element list \<Rightarrow> error + bytes" where
  "write_shapes [] = Inr []"
| "write_shapes (shape_xml # rest) =
     bind_err (writeObject shape_xml 2) (\<lambda>a.
     bind_err (write_props [ascii ''lod''] shape_xml) (\<lambda>b.
     bind_err (write_children (children shape_xml)) (\<lambda>c.
     bind_err (write_shapes rest) (\<lambda>d. Inr (a @ b @ c @ d)))))"

text \<open>The loop \<open>for locnode_xml in locator_xml\<close>.\<close>

fun write_locnodes :: "element list \<Rightarrow> error + bytes" where
  "write_locnodes [] = Inr []"
| "write_locnodes (locnode_xml # rest) =
     bind_err (writeObject locnode_xml 2) (\<lambda>a.
     bind_err (write_props [ascii ''p'', ascii ''q'', ascii ''pa'', ascii ''tx''] locnode_xml) (\<lambda>b.
     bind_err (write_locnodes rest) (\<lambda>c. Inr (a @ b @ c))))"

definition header :: bytes where
  "header = [0x40, 0x40, 0x62, 0x40]"

text \<open>
  \<open>mesh_datastring\<close> is the value of \<open>datastring\<close> when \<open>write_meshfile\<close> reaches
  \<open>with open(filepath, "wb")\<close>, or the exception raised before that.
\<close>

definition mesh_datastring :: "element \<Rightarrow> error + bytes" where
  "mesh_datastring root_xml =
     bind_err
       (if tag root_xml = ascii ''File''
        then writeProperty (ascii ''pdxasset'') (get root_xml (ascii ''pdxasset''))
        else Inl NotImplementedError) (\<lambda>props.
     bind_err
       (case find_child root_xml (ascii ''object'') of
          None \<Rightarrow> Inr []
        | Some object_xml \<Rightarrow>
            bind_err (writeObject object_xml 1) (\<lambda>a.
            bind_err (write_shapes (children object_xml)) (\<lambda>b. Inr (a @ b)))) (\<lambda>objects.
     bind_err
       (case find_child root_xml (ascii ''locator'') of
          None \<Rightarrow> Inr []
        | Some locator_xml \<Rightarrow>
            bind_err (writeObject locator_xml 1) (\<lambda>a.
            bind_err (write_locnodes (children locator_xml)) (\<lambda>b. Inr (a @ b)))) (\<lambda>locators.
     Inr (header @ props @ objects @ locators))))"

text \<open>
  The file system is a map from paths to contents. \<open>write_meshfile\<close> returns the exception
  (or unit) and the file system it leaves behind: the file is opened and written only after the
  whole \<open>datastring\<close> was built.
\<close>

type_synonym filesystem = "string \<rightharpoonup> bytes"

definition write_meshfile :: "filesystem \<Rightarrow> string \<Rightarrow> element \<Rightarrow> (error + unit) \<times> filesystem" where
  "write_meshfile fs filepath root_xml =
     (case mesh_datastring root_xml of
        Inl e \<Rightarrow> (Inl e, fs)
      | Inr datastring \<Rightarrow> (Inr (), fs(filepath \<mapsto> datastring)))"


section \<open>struct.unpack\_from\<close>

text \<open>
  \<open>unpack_from s_size buffer offset\<close> gives the \<open>s_size\<close> bytes a format of that size reads at
  \<open>offset\<close>. A negative offset counts from the end of the buffer; struct.error is raised when
  the bytes are not all inside the buffer.
\<close>

definition unpack_from :: "nat \<Rightarrow> bytes \<Rightarrow> int \<Rightarrow> error + bytes" where
  "unpack_from s_size buffer offset =
     (let len = int (length buffer) in
      if offset < 0 \<and> offset + int s_size > 0 then Inl StructError
      else if offset < 0 \<and> offset + len < 0 then Inl StructError
      else
        (let off = (if offset < 0 then offset + len else offset) in
         if len - off < int s_size then Inl StructError
         else Inr (take s_size (drop (nat off) buffer))))"

text \<open>Formats \<open>"c"\<close> and \<open>"b"\<close>: one byte.\<close>

definition unpack_byte :: "bytes \<Rightarrow> int \<Rightarrow> error + byte" where
  "unpack_byte buffer offset =
     (case unpack_from 1 buffer offset of
        Inl e \<Rightarrow> Inl e
      | Inr bs \<Rightarrow> (case bs of [b] \<Rightarrow> Inr b | _ \<Rightarrow> Inl StructError))"

fun words_le :: "bytes \<Rightarrow> 32 word list" where
  "words_le (a # b # c # d # rest) =
     (ucast a OR push_bit 8 (ucast b) OR push_bit 16 (ucast c) OR push_bit 24 (ucast d)) # words_le rest"
| "words_le _ = []"

text \<open>Format \<open>"i"\<close>: a little-endian signed 32-bit integer.\<close>

definition unpack_i :: "bytes \<Rightarrow> int \<Rightarrow> error + int" where
  "unpack_i buffer offset =
     (case unpack_from 4 buffer offset of
        Inl e \<Rightarrow> Inl e
      | Inr bs \<Rightarrow> (case words_le bs of [w] \<Rightarrow> Inr (sint w) | _ \<Rightarrow> Inl StructError))"

section \<open>The reader\<close>

text \<open>The first loop of \<open>parseObject\<close>: the run of \<open>[\<close> bytes.\<close>

function parseObject_depth :: "bytes \<Rightarrow> int \<Rightarrow> nat \<Rightarrow> error + (nat \<times> int)" where
  "parseObject_depth bdata pos objdepth =
     (case unpack_byte bdata pos of
        Inl e \<Rightarrow> Inl e
      | Inr c \<Rightarrow>
          (case decode_utf8_byte c of
             Inl e \<Rightarrow> Inl e
           | Inr ch \<Rightarrow>
               if ch = 0x5B then parseObject_depth bdata (pos + 1) (objdepth + 1)
               else Inr (objdepth, pos)))"
  by pat_completeness auto
termination
  by (relation "measure (\<lambda>(bdata, pos, objdepth). nat (int (length bdata) - pos))")
     (auto simp: unpack_byte_def unpack_from_def Let_def split: if_splits)

text \<open>The second loop of \<open>parseObject\<close>: the name, up to a zero byte.\<close>

function parseObject_name :: "bytes \<Rightarrow> int \<Rightarrow> pystr \<Rightarrow> error + (pystr \<times> int)" where
  "parseObject_name bdata pos obj_name =
     (case unpack_byte bdata pos of
        Inl e \<Rightarrow> Inl e
      | Inr c \<Rightarrow>
          if c \<noteq> 0 then parseObject_name bdata (pos + 1) (obj_name @ decode_latin1 [c])
          else Inr (obj_name, pos))"
  by pat_completeness auto
termination
  by (relation "measure (\<lambda>(bdata, pos, obj_name). nat (int (length bdata) - pos))")
     (auto simp: unpack_byte_def unpack_from_def Let_def split: if_splits)

definition parseObject :: "bytes \<Rightarrow> int \<Rightarrow> error + (pystr \<times> nat \<times> int)" where
  "parseObject bdata pos =
     bind_err (parseObject_depth bdata pos 0) (\<lambda>(objdepth, pos).
     bind_err (parseObject_name bdata pos []) (\<lambda>(obj_name, pos).
     Inr (obj_name, objdepth, pos + 1)))"

definition parseString :: "bytes \<Rightarrow> int \<Rightarrow> int \<Rightarrow> error + pystr" where
  "parseString bdata pos len =
     bind_err (unpack_from (nat len) bdata pos) (\<lambda>val_tuple.
     let string = decode_latin1 val_tuple in
     if string = [] then Inl IndexError
     else if last string = 0 then Inr (butlast string)
     else Inr string)"

definition parseData :: "bytes \<Rightarrow> int \<Rightarrow> error + (pyval list \<times> int)" where
  "parseData bdata pos =
     bind_err (unpack_byte bdata pos) (\<lambda>c.
     bind_err (decode_utf8_byte c) (\<lambda>datatype.
     let pos = pos + 1 in
     bind_err (unpack_i bdata pos) (\<lambda>datacount.
     let pos = pos + 4 in
     if datatype = 0x69 then
       bind_err (unpack_from (4 * nat datacount) bdata pos) (\<lambda>val.
       Inr (map (\<lambda>w. PInt (sint w)) (words_le val), pos + 4 * datacount))
     else if datatype = 0x66 then
       bind_err (unpack_from (4 * nat datacount) bdata pos) (\<lambda>val.
       Inr (map PFloat (words_le val), pos + 4 * datacount))
     else if datatype = 0x73 then
       bind_err (unpack_i bdata pos) (\<lambda>str_data_length.
       let pos = pos + 4 in
       bind_err (parseString bdata pos str_data_length) (\<lambda>val.
       Inr ([PStr val], pos + str_data_length)))
     else Inl NotImplementedError)))"

definition parseProperty :: "bytes \<Rightarrow> int \<Rightarrow> error + (pystr \<times> pyval list \<times> int)" where
  "parseProperty bdata pos =
     (let pos = pos + 1 in
      bind_err (unpack_byte bdata pos) (\<lambda>b.
      let prop_name_length = sint b; pos = pos + 1 in
      bind_err (parseString bdata pos prop_name_length) (\<lambda>prop_name.
      let pos = pos + prop_name_length in
      bind_err (parseData bdata pos) (\<lambda>(prop_values, pos).
      Inr (prop_name, prop_values, pos)))))"

text \<open>
  The reader builds the tree by mutating elements that \<open>depth_list\<close> and \<open>parent_element\<close>
  also refer to. The model names an element by its path from \<open>file_element\<close>, the list of
  child indices leading to it; a path stays valid because the reader only appends children
  and sets attributes.
\<close>

type_synonym path = "nat list"

primrec SubElement :: "path \<Rightarrow> pystr \<Rightarrow> element \<Rightarrow> element" where
  "SubElement [] name e = Element (tag e) (attrib e) (children e @ [Element name [] []])"
| "SubElement (i # p) name e =
     Element (tag e) (attrib e) ((children e)[i := SubElement p name (children e ! i)])"

primrec set_attrib :: "path \<Rightarrow> pystr \<Rightarrow> pyval list \<Rightarrow> element \<Rightarrow> element" where
  "set_attrib [] key val e = Element (tag e) (AList.update key val (attrib e)) (children e)"
| "set_attrib (i # p) key val e =
     Element (tag e) (attrib e) ((children e)[i := set_attrib p key val (children e ! i)])"

primrec len_at :: "path \<Rightarrow> element \<Rightarrow> nat" where
  "len_at [] e = length (children e)"
| "len_at (i # p) e = len_at p (children e ! i)"

record locals =
  file_element :: element
  parent_element :: path
  depth_list :: "path list"
  current_depth :: nat

text \<open>The branch \<open>if next_char == "["\<close> after \<open>parseObject\<close> returned.\<close>

definition object_branch :: "pystr \<Rightarrow> nat \<Rightarrow> locals \<Rightarrow> error + locals" where
  "object_branch obj_name depth st =
     bind_err
       (if \<not> depth > current_depth st then
          (let dl = take depth (depth_list st) in
           if dl = [] then Inl IndexError else Inr (dl, last dl))
        else Inr (depth_list st, parent_element st)) (\<lambda>(dl, parent).
     let new_element = parent @ [len_at parent (file_element st)] in
     Inr \<lparr> file_element = SubElement parent obj_name (file_element st),
           parent_element = new_element,
           depth_list = dl @ [new_element],
           current_depth = depth \<rparr>)"

text \<open>The branch \<open>elif next_char == "!"\<close> after \<open>parseProperty\<close> returned.\<close>

definition property_branch :: "pystr \<Rightarrow> pyval list \<Rightarrow> locals \<Rightarrow> locals" where
  "property_branch prop_name prop_values st =
     st \<lparr> file_element := set_attrib (parent_element st) prop_name prop_values (file_element st) \<rparr>"

text \<open>
  The loop \<open>while pos < eof\<close>. A negative data count moves \<open>pos\<close> backwards, so the loop need
  not end: \<open>None\<close> is the run that never returns.
\<close>

partial_function (option) read_loop :: "bytes \<Rightarrow> int \<Rightarrow> locals \<Rightarrow> (error + element) option" where
  "read_loop fdata pos st =
     (if pos < int (length fdata) then
        (case unpack_byte fdata pos of
           Inl e \<Rightarrow> Some (Inl e)
         | Inr c \<Rightarrow>
             (case decode_utf8_byte c of
                Inl e \<Rightarrow> Some (Inl e)
              | Inr next_char \<Rightarrow>
                  if next_char = 0x5B then
                    (case parseObject fdata pos of
                       Inl e \<Rightarrow> Some (Inl e)
                     | Inr (obj_name, depth, pos') \<Rightarrow>
                         (case object_branch obj_name depth st of
                            Inl e \<Rightarrow> Some (Inl e)
                          | Inr st' \<Rightarrow> read_loop fdata pos' st'))
                  else if next_char = 0x21 then
                    (case parseProperty fdata pos of
                       Inl e \<Rightarrow> Some (Inl e)
                     | Inr (prop_name, prop_values, pos') \<Rightarrow>
                         read_loop fdata pos' (property_branch prop_name prop_values st))
                  else Some (Inl NotImplementedError)))
      else Some (Inr (file_element st)))"

declare read_loop.simps [code]

definition initial_locals :: locals where
  "initial_locals =
     \<lparr> file_element = Element (ascii ''File'') [] [],
       parent_element = [],
       depth_list = [[]],
       current_depth = 0 \<rparr>"

text \<open>
  \<open>read_meshfile\<close> opens and maps the file (an empty file cannot be mapped), checks the
  header and runs the loop.
\<close>

definition read_meshfile :: "filesystem \<Rightarrow> string \<Rightarrow> (error + element) option" where
  "read_meshfile fs filepath =
     (case fs filepath of
        None \<Rightarrow> Some (Inl FileNotFoundError)
      | Some fdata \<Rightarrow>
          if fdata = [] then Some (Inl ValueError)
          else
            (case unpack_from 4 fdata 0 of
               Inl e \<Rightarrow> Some (Inl e)
             | Inr hdr \<Rightarrow>
                 if hdr = header then read_loop fdata 4 initial_locals
                 else Some (Inl NotImplementedError)))"


section \<open>The token stream of a document\<close>

text \<open>
  The format is a sequence of object tokens and property tokens. \<open>mesh_tokens\<close> lists, in
  order, the tokens \<open>write_meshfile\<close> hands to \<open>writeObject\<close> and \<open>writeProperty\<close> for a
  tree: it follows the same traversal and performs no encoding.
\<close>

datatype token = TObj nat pystr | TProp pystr "pyval list option"

fun write_token :: "token \<Rightarrow> error + bytes" where
  "write_token (TObj d name) = writeObject (Element name [] []) d"
| "write_token (TProp name v) = writeProperty name v"

fun write_tokens :: "token list \<Rightarrow> error + bytes" where
  "write_tokens [] = Inr []"
| "write_tokens (t # ts) =
     bind_err (write_token t) (\<lambda>a. bind_err (write_tokens ts) (\<lambda>b. Inr (a @ b)))"

definition props_tokens :: "pystr list \<Rightarrow> element \<Rightarrow> token list" where
  "props_tokens props x = map (\<lambda>k. TProp k (get x k)) (filter (\<lambda>k. get x k \<noteq> None) props)"

definition object_tokens :: "nat \<Rightarrow> pystr list \<Rightarrow> element \<Rightarrow> token list" where
  "object_tokens d props x = TObj d (tag x) # props_tokens props x"

definition mesh_sub_tokens :: "element \<Rightarrow> pystr \<Rightarrow> pystr list \<Rightarrow> token list" where
  "mesh_sub_tokens mesh_xml name props =
     (case find_child mesh_xml name of None \<Rightarrow> [] | Some x \<Rightarrow> object_tokens 4 props x)"

definition child_tokens :: "element \<Rightarrow> token list" where
  "child_tokens child_xml =
     TObj 3 (tag child_xml) #
     (if tag child_xml = ascii ''mesh'' then
        props_tokens mesh_props child_xml
        @ mesh_sub_tokens child_xml (ascii ''aabb'') [ascii ''min'', ascii ''max'']
        @ mesh_sub_tokens child_xml (ascii ''material'')
            [ascii ''shader'', ascii ''diff'', ascii ''n'', ascii ''spec'']
        @ mesh_sub_tokens child_xml (ascii ''skin'') [ascii ''bones'', ascii ''ix'', ascii ''w'']
      else if tag child_xml = ascii ''skeleton'' then
        concat (map (object_tokens 4 [ascii ''ix'', ascii ''pa'', ascii ''tx''])
                  (children child_xml))
      else [])"

definition shape_tokens :: "element \<Rightarrow> token list" where
  "shape_tokens shape_xml =
     object_tokens 2 [ascii ''lod''] shape_xml @ concat (map child_tokens (children shape_xml))"

definition mesh_tokens :: "element \<Rightarrow> token list" where
  "mesh_tokens root_xml =
     TProp (ascii ''pdxasset'') (get root_xml (ascii ''pdxasset''))
     # (case find_child root_xml (ascii ''object'') of
          None \<Rightarrow> []
        | Some object_xml \<Rightarrow>
            TObj 1 (tag object_xml) # concat (map shape_tokens (children object_xml)))
     @ (case find_child root_xml (ascii ''locator'') of
          None \<Rightarrow> []
        | Some locator_xml \<Rightarrow>
            TObj 1 (tag locator_xml)
            # concat (map (object_tokens 2 [ascii ''p'', ascii ''q'', ascii ''pa'', ascii ''tx''])
                        (children locator_xml)))"

section \<open>Token streams as the reader sees them\<close>

text \<open>
  \<open>scan_tokens\<close> is the loop of \<open>read_meshfile\<close> with the tree left out: it lists the object
  tokens (marker count and name) and property tokens (name and values) that
  \<open>parseObject\<close> and \<open>parseProperty\<close> return, in the order the loop meets them.
  \<open>run_tokens\<close> is what the two branches of the loop do with such a list.
\<close>

partial_function (option) scan_tokens :: "bytes \<Rightarrow> int \<Rightarrow> (error + token list) option" where
  "scan_tokens fdata pos =
     (if pos < int (length fdata) then
        (case unpack_byte fdata pos of
           Inl e \<Rightarrow> Some (Inl e)
         | Inr c \<Rightarrow>
             (case decode_utf8_byte c of
                Inl e \<Rightarrow> Some (Inl e)
              | Inr next_char \<Rightarrow>
                  if next_char = 0x5B then
                    (case parseObject fdata pos of
                       Inl e \<Rightarrow> Some (Inl e)
                     | Inr (obj_name, depth, pos') \<Rightarrow>
                         Option.bind (scan_tokens fdata pos') (\<lambda>r.
                           Some (case r of Inl e \<Rightarrow> Inl e
                                 | Inr toks \<Rightarrow> Inr (TObj depth obj_name # toks))))
                  else if next_char = 0x21 then
                    (case parseProperty fdata pos of
                       Inl e \<Rightarrow> Some (Inl e)
                     | Inr (prop_name, prop_values, pos') \<Rightarrow>
                         Option.bind (scan_tokens fdata pos') (\<lambda>r.
                           Some (case r of Inl e \<Rightarrow> Inl e
                                 | Inr toks \<Rightarrow> Inr (TProp prop_name (Some prop_values) # toks))))
                  else Some (Inl NotImplementedError)))
      else Some (Inr []))"

declare scan_tokens.simps [code]

fun run_tokens :: "token list \<Rightarrow> locals \<Rightarrow> error + locals" where
  "run_tokens [] st = Inr st"
| "run_tokens (TObj depth obj_name # toks) st =
     bind_err (object_branch obj_name depth st) (run_tokens toks)"
| "run_tokens (TProp prop_name (Some prop_values) # toks) st =
     run_tokens toks (property_branch prop_name prop_values st)"
| "run_tokens (TProp prop_name None # toks) st = run_tokens toks st"

text \<open>
  Tokens that survive a round trip through the bytes. A tag is written without a length,
  so it must hold no zero byte and must not begin with the marker \<open>[\<close>; its first byte is
  also decoded with the default codec by \<open>parseObject\<close> and must be ASCII. A property name
  is stripped of one trailing zero byte by \<open>parseString\<close>. A value is a non-empty array of
  32-bit integers, or of floats, or one Latin-1 string.
\<close>

definition latin1 :: "pystr \<Rightarrow> bool" where
  "latin1 s = list_all (\<lambda>c. c < 256) s"

definition valid_tag :: "pystr \<Rightarrow> bool" where
  "valid_tag name \<longleftrightarrow>
     length name < 64 \<and> list_all (\<lambda>c. 0 < c \<and> c < 256) name \<and>
     (case name of [] \<Rightarrow> True | c # _ \<Rightarrow> c \<noteq> 0x5B \<and> c < 0x80)"

definition valid_key :: "pystr \<Rightarrow> bool" where
  "valid_key k \<longleftrightarrow> k \<noteq> [] \<and> length k \<le> 127 \<and> latin1 k \<and> last k \<noteq> 0"

fun int32 :: "pyval \<Rightarrow> bool" where
  "int32 (PInt i) = (- (2 ^ 31) \<le> i \<and> i < 2 ^ 31)"
| "int32 _ = False"

definition valid_value :: "pyval list \<Rightarrow> bool" where
  "valid_value v =
     (case v of
        [] \<Rightarrow> False
      | PInt _ # _ \<Rightarrow> list_all int32 v \<and> int (length v) < 2 ^ 31
      | PFloat _ # _ \<Rightarrow> list_all is_float v \<and> int (length v) < 2 ^ 31
      | PStr s # rest \<Rightarrow> rest = [] \<and> latin1 s \<and> int (length s) + 1 < 2 ^ 31)"

fun valid_token :: "token \<Rightarrow> bool" where
  "valid_token (TObj d name) = (0 < d \<and> valid_tag name)"
| "valid_token (TProp k v) = (valid_key k \<and> (case v of None \<Rightarrow> False | Some x \<Rightarrow> valid_value x))"

section \<open>The byte layout of the format\<close>

text \<open>
  The layout of a token as the format describes it, written without reference to the writer.
  A property token is the \<open>!\<close> byte, a one-byte name length, the name bytes and a data
  record: a type byte (\<open>i\<close>, \<open>f\<close> or \<open>s\<close>), a four-byte little-endian count and the payload
  (32-bit integers or floats, low byte first; for a string a four-byte length, one more than
  the string's, the Latin-1 bytes and a zero byte). An empty array has no data record.
  An object token is a run of \<open>[\<close> bytes, as many as the depth, the name bytes and a zero
  byte.
\<close>

definition spec_data_bytes :: "pyval list \<Rightarrow> bytes" where
  "spec_data_bytes v =
     (case v of
        [] \<Rightarrow> []
      | PInt _ # _ \<Rightarrow>
          0x69 # le32 (of_nat (length v))
          @ concat (map (\<lambda>x. case x of PInt i \<Rightarrow> le32 (word_of_int i) | _ \<Rightarrow> []) v)
      | PFloat _ # _ \<Rightarrow>
          0x66 # le32 (of_nat (length v))
          @ concat (map (\<lambda>x. case x of PFloat w \<Rightarrow> le32 w | _ \<Rightarrow> []) v)
      | PStr s # _ \<Rightarrow>
          0x73 # le32 1 @ le32 (of_nat (length s + 1)) @ map of_nat s @ [0])"

definition spec_property_bytes :: "pystr \<Rightarrow> pyval list \<Rightarrow> bytes" where
  "spec_property_bytes name v = 0x21 # of_nat (length name) # map of_nat name @ spec_data_bytes v"

definition spec_object_bytes :: "nat \<Rightarrow> pystr \<Rightarrow> bytes" where
  "spec_object_bytes depth name = replicate depth 0x5B @ map of_nat name @ [0]"

fun spec_token_bytes :: "token \<Rightarrow> bytes" where
  "spec_token_bytes (TObj depth name) = spec_object_bytes depth name"
| "spec_token_bytes (TProp name None) = []"
| "spec_token_bytes (TProp name (Some v)) = spec_property_bytes name v"

section \<open>Positions in the tree\<close>

text \<open>
  Notions used to state what the reader builds. A path is valid in a tree when it leads to a
  node; \<open>node_at\<close> is that node. A path is rightmost when every index on it is the last child:
  such a path leads to the element created last at its depth. \<open>graft n e t\<close> appends \<open>e\<close> to
  the children of the rightmost node at depth \<open>n\<close>. \<open>levels\<close> lists the nodes of a tree in
  document order with their nesting level, and \<open>object_depths\<close> the object tokens of a stream
  with their marker count.
\<close>

primrec valid_path :: "path \<Rightarrow> element \<Rightarrow> bool" where
  "valid_path [] e = True"
| "valid_path (i # p) e = (i < length (children e) \<and> valid_path p (children e ! i))"

primrec node_at :: "path \<Rightarrow> element \<Rightarrow> element" where
  "node_at [] e = e"
| "node_at (i # p) e = node_at p (children e ! i)"

primrec rightmost :: "path \<Rightarrow> element \<Rightarrow> bool" where
  "rightmost [] e = True"
| "rightmost (i # p) e =
     (children e \<noteq> [] \<and> i = length (children e) - 1 \<and> rightmost p (last (children e)))"

primrec graft :: "nat \<Rightarrow> element \<Rightarrow> element \<Rightarrow> element" where
  "graft 0 e t = Element (tag t) (attrib t) (children t @ [e])"
| "graft (Suc n) e t =
     Element (tag t) (attrib t) (butlast (children t) @ [graft n e (last (children t))])"

fun levels :: "nat \<Rightarrow> element \<Rightarrow> (nat \<times> pystr) list" where
  "levels d (Element name a cs) = (d, name) # concat (map (levels (Suc d)) cs)"

fun object_depths :: "token list \<Rightarrow> (nat \<times> pystr) list" where
  "object_depths [] = []"
| "object_depths (TObj d name # toks) = (d, name) # object_depths toks"
| "object_depths (TProp k v # toks) = object_depths toks"

text \<open>
  A sequence of depths is steady from depth \<open>cd\<close> when no depth is more than one greater than
  the depth before it (\<open>cd\<close> for the first).
\<close>

fun steady :: "nat \<Rightarrow> nat list \<Rightarrow> bool" where
  "steady cd [] = True"
| "steady cd (d # ds) = (0 < d \<and> d \<le> Suc cd \<and> steady d ds)"

text \<open>
  The token stream of a whole element: its object token at depth \<open>d\<close>, a property token for
  each attribute in dictionary order, and the streams of its children one level deeper.
\<close>

fun tree_tokens :: "nat \<Rightarrow> element \<Rightarrow> token list" where
  "tree_tokens d (Element name a cs) =
     TObj d name # map (\<lambda>(k, v). TProp k (Some v)) a @ concat (map (tree_tokens (Suc d)) cs)"

text \<open>
  What the loop keeps true of its variables as long as no object token is more than one
  level deeper than the one before: \<open>parent_element\<close> is the element created last, at depth
  \<open>current_depth\<close>, and \<open>depth_list\<close> holds its ancestors from the root down, and itself.
\<close>

definition reader_inv :: "locals \<Rightarrow> bool" where
  "reader_inv st \<longleftrightarrow>
     rightmost (parent_element st) (file_element st) \<and>
     length (parent_element st) = current_depth st \<and>
     depth_list st = map (\<lambda>i. take i (parent_element st)) [0..<Suc (current_depth st)]"

text \<open>
  The nodes of a tree in document order, each with its tag and attributes, and what the
  format says of property tokens: \<open>attach\<close> gives each object token a new node with no
  attributes, placed after the nodes before it, and sets each property on the node of the
  most recent object token (on the first node, the root, when there has been none).
\<close>

type_synonym node = "pystr \<times> (pystr \<times> pyval list) list"

fun nodes :: "element \<Rightarrow> node list" where
  "nodes (Element name a cs) = (name, a) # concat (map nodes cs)"

fun attach :: "token list \<Rightarrow> node list \<Rightarrow> node list" where
  "attach [] ns = ns"
| "attach (TObj d name # toks) ns = attach toks (ns @ [(name, [])])"
| "attach (TProp k (Some v) # toks) ns =
     attach toks (butlast ns @ [(fst (last ns), AList.update k v (snd (last ns)))])"
| "attach (TProp k None # toks) ns = attach toks ns"

text \<open>
  What the loop keeps true of its variables whatever the depths of the object tokens:
  \<open>parent_element\<close> is the element created last and has no children yet, and \<open>depth_list\<close> is
  a chain of its ancestors that ends with it.
\<close>

definition is_prefix :: "path \<Rightarrow> path \<Rightarrow> bool" where
  "is_prefix q r \<longleftrightarrow> take (length q) r = q"

definition attach_inv :: "locals \<Rightarrow> bool" where
  "attach_inv st \<longleftrightarrow>
     rightmost (parent_element st) (file_element st) \<and>
     len_at (parent_element st) (file_element st) = 0 \<and>
     depth_list st \<noteq> [] \<and> last (depth_list st) = parent_element st \<and>
     sorted_wrt is_prefix (depth_list st)"

section \<open>Properties of the writer\<close>

text \<open>
  C10. For a property whose value is an empty array, \<open>writeData\<close> returns the empty byte
  string instead of failing, and \<open>writeProperty\<close> returns exactly the \<open>!\<close> byte, the
  one-byte name length and the name bytes: no type tag, no count, no payload. (The name must
  be what \<open>writeProperty\<close> can write at all: at most 127 characters, all in Latin-1.)
\<close>

theorem writeProperty_empty_array:
  "length prop_name \<le> 127 \<Longrightarrow> \<forall>c\<in>set prop_name. c < 256 \<Longrightarrow>
   writeData [] = Inr [] \<and>
   writeProperty prop_name (Some []) =
     Inr ([0x21, of_nat (length prop_name)] @ map of_nat prop_name)"
  by (simp add: writeProperty_def writeData_def pack_b_def writeString_def encode_latin1_def
      bind_err_def)

theorem writeProperty_empty_array_witness:
  "length (ascii ''lod'') \<le> 127 \<and> list_all (\<lambda>c. c < 256) (ascii ''lod'') \<and>
   writeProperty (ascii ''lod'') (Some []) = Inr [0x21, 3, 0x6C, 0x6F, 0x64]"
  using writeProperty_empty_array [of "ascii ''lod''"] by (simp add: ascii_def)

subsection \<open>The writer emits the token stream\<close>

lemma bind_err_simps [simp]:
  "bind_err (Inl e) f = Inl e"
  "bind_err (Inr x) f = f x"
  by (simp_all add: bind_err_def)

lemma bind_err_assoc: "bind_err (bind_err m f) g = bind_err m (\<lambda>x. bind_err (f x) g)"
  by (cases m) simp_all

lemma bind_err_Inr_iff:
  "bind_err m f = Inr y \<longleftrightarrow> (\<exists>x. m = Inr x \<and> f x = Inr y)"
  by (cases m) simp_all

lemma bind_err_Inl_iff:
  "bind_err m f = Inl e \<longleftrightarrow> (m = Inl e \<or> (\<exists>x. m = Inr x \<and> f x = Inl e))"
  by (cases m) simp_all

lemma bind_err_Inr [simp]: "bind_err m Inr = m" "bind_err m (\<lambda>b. Inr b) = m"
  by (cases m; simp)+

lemma writeObject_tag: "writeObject x d = write_token (TObj d (tag x))"
  by (simp add: writeObject_def Let_def)

lemma write_tokens_append:
  "write_tokens (xs @ ys) =
     bind_err (write_tokens xs) (\<lambda>a. bind_err (write_tokens ys) (\<lambda>b. Inr (a @ b)))"
proof (induction xs)
  case Nil
  show ?case by (cases "write_tokens ys") simp_all
next
  case (Cons t xs)
  show ?case
    by (cases "write_token t"; cases "write_tokens xs"; cases "write_tokens ys")
       (simp_all add: Cons)
qed

lemma write_props_tokens: "write_props props x = write_tokens (props_tokens props x)"
  by (induction props) (auto simp: props_tokens_def)

lemma write_object_tokens:
  "bind_err (writeObject x d) (\<lambda>a. bind_err (write_props props x) (\<lambda>b. Inr (a @ b)))
   = write_tokens (object_tokens d props x)"
  by (simp add: object_tokens_def writeObject_tag write_props_tokens del: write_token.simps)

lemma write_mesh_sub_tokens:
  "write_mesh_sub m name props = write_tokens (mesh_sub_tokens m name props)"
  by (simp add: write_mesh_sub_def mesh_sub_tokens_def write_object_tokens split: option.splits)

lemma write_bones_tokens:
  "write_bones bs = write_tokens (concat (map (object_tokens 4 [ascii ''ix'', ascii ''pa'', ascii ''tx'']) bs))"
proof (induction bs)
  case Nil show ?case by simp
next
  case (Cons b bs)
  have "write_bones (b # bs) =
     bind_err (bind_err (writeObject b 4) (\<lambda>a. bind_err (write_props [ascii ''ix'', ascii ''pa'', ascii ''tx''] b) (\<lambda>b. Inr (a @ b))))
       (\<lambda>ab. bind_err (write_bones bs) (\<lambda>c. Inr (ab @ c)))"
    by (simp add: bind_err_assoc)
  then show ?case
    by (simp only: write_object_tokens Cons concat.simps list.map write_tokens_append)
qed


lemma write_tokens_Cons_obj:
  "write_tokens (TObj d (tag x) # ts) =
     bind_err (writeObject x d) (\<lambda>a. bind_err (write_tokens ts) (\<lambda>b. Inr (a @ b)))"
  by (simp add: writeObject_tag del: write_token.simps)

lemma bind_err_append3:
  "bind_err m (\<lambda>a. bind_err n (\<lambda>b. bind_err k (\<lambda>c. Inr (a @ b @ c))))
   = bind_err m (\<lambda>a. bind_err (bind_err n (\<lambda>b. bind_err k (\<lambda>c. Inr (b @ c)))) (\<lambda>bc. Inr (a @ bc)))"
  by (cases m; cases n; cases k) simp_all

lemma write_child_tokens: "write_child c = write_tokens (child_tokens c)"
proof -
  have mesh: "bind_err (write_props mesh_props c) (\<lambda>p.
          bind_err (write_mesh_sub c (ascii ''aabb'') [ascii ''min'', ascii ''max'']) (\<lambda>b.
          bind_err (write_mesh_sub c (ascii ''material'')
                      [ascii ''shader'', ascii ''diff'', ascii ''n'', ascii ''spec'']) (\<lambda>m.
          bind_err (write_mesh_sub c (ascii ''skin'')
                      [ascii ''bones'', ascii ''ix'', ascii ''w'']) (\<lambda>s.
          Inr (p @ b @ m @ s)))))
     = write_tokens (props_tokens mesh_props c
        @ mesh_sub_tokens c (ascii ''aabb'') [ascii ''min'', ascii ''max'']
        @ mesh_sub_tokens c (ascii ''material'')
            [ascii ''shader'', ascii ''diff'', ascii ''n'', ascii ''spec'']
        @ mesh_sub_tokens c (ascii ''skin'') [ascii ''bones'', ascii ''ix'', ascii ''w''])"
    (is "bind_err ?A (\<lambda>p. bind_err ?B (\<lambda>b. bind_err ?C (\<lambda>m. bind_err ?D (\<lambda>s. Inr (p @ b @ m @ s))))) = _")
    unfolding write_tokens_append write_props_tokens write_mesh_sub_tokens
    by (cases "write_tokens (props_tokens mesh_props c)";
        cases "write_tokens (mesh_sub_tokens c (ascii ''aabb'') [ascii ''min'', ascii ''max''])";
        cases "write_tokens (mesh_sub_tokens c (ascii ''material'') [ascii ''shader'', ascii ''diff'', ascii ''n'', ascii ''spec''])";
        cases "write_tokens (mesh_sub_tokens c (ascii ''skin'') [ascii ''bones'', ascii ''ix'', ascii ''w''])")
       simp_all
  show ?thesis
    unfolding write_child_def child_tokens_def write_tokens_Cons_obj mesh write_bones_tokens
    by (simp del: write_token.simps write_tokens.simps(2))
qed

lemma write_children_tokens: "write_children cs = write_tokens (concat (map child_tokens cs))"
  by (induction cs) (simp_all add: write_child_tokens write_tokens_append)

lemma write_shapes_tokens: "write_shapes ss = write_tokens (concat (map shape_tokens ss))"
proof (induction ss)
  case Nil show ?case by simp
next
  case (Cons s ss)
  have "write_shapes (s # ss) =
     bind_err (bind_err (bind_err (writeObject s 2) (\<lambda>a. bind_err (write_props [ascii ''lod''] s) (\<lambda>b. Inr (a @ b))))
        (\<lambda>ab. bind_err (write_children (children s)) (\<lambda>c. Inr (ab @ c))))
       (\<lambda>abc. bind_err (write_shapes ss) (\<lambda>d. Inr (abc @ d)))"
    by (cases "writeObject s 2"; cases "write_props [ascii ''lod''] s";
        cases "write_children (children s)"; cases "write_shapes ss") simp_all
  then show ?case
    by (simp only: write_object_tokens Cons concat.simps list.map write_tokens_append
        shape_tokens_def write_children_tokens)
qed

lemma write_locnodes_tokens:
  "write_locnodes ns =
     write_tokens (concat (map (object_tokens 2 [ascii ''p'', ascii ''q'', ascii ''pa'', ascii ''tx'']) ns))"
proof (induction ns)
  case Nil show ?case by simp
next
  case (Cons b bs)
  have "write_locnodes (b # bs) =
     bind_err (bind_err (writeObject b 2) (\<lambda>a. bind_err (write_props [ascii ''p'', ascii ''q'', ascii ''pa'', ascii ''tx''] b) (\<lambda>b. Inr (a @ b))))
       (\<lambda>ab. bind_err (write_locnodes bs) (\<lambda>c. Inr (ab @ c)))"
    by (simp add: bind_err_assoc)
  then show ?case
    by (simp only: write_object_tokens Cons concat.simps list.map write_tokens_append)
qed

lemma mesh_datastring_tokens:
  "mesh_datastring root_xml =
     (if tag root_xml = ascii ''File''
      then bind_err (write_tokens (mesh_tokens root_xml)) (\<lambda>b. Inr (header @ b))
      else Inl NotImplementedError)"
proof (cases "tag root_xml = ascii ''File''")
  case False
  then show ?thesis by (simp add: mesh_datastring_def)
next
  case True
  let ?P = "writeProperty (ascii ''pdxasset'') (get root_xml (ascii ''pdxasset''))"
  let ?O = "write_tokens (case find_child root_xml (ascii ''object'') of
          None \<Rightarrow> []
        | Some object_xml \<Rightarrow>
            TObj 1 (tag object_xml) # concat (map shape_tokens (children object_xml)))"
  let ?L = "write_tokens (case find_child root_xml (ascii ''locator'') of
          None \<Rightarrow> []
        | Some locator_xml \<Rightarrow>
            TObj 1 (tag locator_xml)
            # concat (map (object_tokens 2 [ascii ''p'', ascii ''q'', ascii ''pa'', ascii ''tx''])
                        (children locator_xml)))"
  have O: "(case find_child root_xml (ascii ''object'') of
          None \<Rightarrow> Inr []
        | Some object_xml \<Rightarrow>
            bind_err (writeObject object_xml 1) (\<lambda>a.
            bind_err (write_shapes (children object_xml)) (\<lambda>b. Inr (a @ b)))) = ?O"
    by (simp add: write_tokens_Cons_obj write_shapes_tokens del: write_tokens.simps(2) split: option.splits)
  have L: "(case find_child root_xml (ascii ''locator'') of
          None \<Rightarrow> Inr []
        | Some locator_xml \<Rightarrow>
            bind_err (writeObject locator_xml 1) (\<lambda>a.
            bind_err (write_locnodes (children locator_xml)) (\<lambda>b. Inr (a @ b)))) = ?L"
    by (simp add: write_tokens_Cons_obj write_locnodes_tokens del: write_tokens.simps(2) split: option.splits)
  show ?thesis
    unfolding mesh_datastring_def O L mesh_tokens_def
    using True
    by (cases ?P; cases ?O; cases ?L) (simp_all add: write_tokens_append)
qed

subsection \<open>Failures of the writer\<close>

lemma write_tokens_Inr_all:
  "write_tokens toks = Inr b \<Longrightarrow> tok \<in> set toks \<Longrightarrow> \<exists>b'. write_token tok = Inr b'"
  by (induction toks arbitrary: b) (auto simp: bind_err_Inr_iff simp del: write_token.simps)

lemma write_tokens_Inl_some:
  "write_tokens toks = Inl e \<Longrightarrow> \<exists>tok\<in>set toks. write_token tok = Inl e"
  by (induction toks) (auto simp: bind_err_Inl_iff bind_err_Inr_iff simp del: write_token.simps)

lemma write_meshfile_fails:
  assumes bad: "tok \<in> set (mesh_tokens t)" "\<And>b. write_token tok \<noteq> Inr b"
  shows "\<exists>e. write_meshfile fs p t = (Inl e, fs)"
proof -
  have "\<And>b. write_tokens (mesh_tokens t) \<noteq> Inr b"
    using write_tokens_Inr_all bad by blast
  then obtain e where "write_tokens (mesh_tokens t) = Inl e"
    by (cases "write_tokens (mesh_tokens t)") auto
  then show ?thesis
    by (simp add: write_meshfile_def mesh_datastring_tokens)
qed

lemma write_meshfile_fails_NotImplemented:
  assumes bad: "tok \<in> set (mesh_tokens t)" "\<And>b. write_token tok \<noteq> Inr b"
    and others: "\<forall>tok\<in>set (mesh_tokens t). \<forall>e. write_token tok = Inl e \<longrightarrow> e = NotImplementedError"
  shows "write_meshfile fs p t = (Inl NotImplementedError, fs)"
proof -
  have "\<And>b. write_tokens (mesh_tokens t) \<noteq> Inr b"
    using write_tokens_Inr_all bad by blast
  then obtain e where e: "write_tokens (mesh_tokens t) = Inl e"
    by (cases "write_tokens (mesh_tokens t)") auto
  with write_tokens_Inl_some others have "e = NotImplementedError" by blast
  with e show ?thesis
    by (simp add: write_meshfile_def mesh_datastring_tokens)
qed

lemma write_meshfile_failure_keeps_fs:
  "write_meshfile fs p t = (Inl e, fs') \<Longrightarrow> fs' = fs"
  by (auto simp: write_meshfile_def split: sum.splits)

lemma writeObject_long: "64 \<le> length (tag x) \<Longrightarrow> writeObject x d = Inl NotImplementedError"
  by (simp add: writeObject_def)

lemma writeObject_short:
  "length (tag x) \<le> 63 \<Longrightarrow> list_all (\<lambda>c. c < 256) (tag x) \<Longrightarrow>
   writeObject x d = Inr (replicate d 0x5B @ map of_nat (tag x) @ [0])"
  by (simp add: writeObject_def writeString_def encode_latin1_def list_all_iff)

lemma writeData_mixed:
  assumes "a \<in> set d" "b \<in> set d" "is_int a" "is_float b"
  shows "writeData d = Inl NotImplementedError"
proof -
  have "type_of a = TyInt" using assms(3) by (cases a) simp_all
  then have "TyInt \<in> type_of ` set d" using assms(1) by force
  moreover have "type_of b = TyFloat" using assms(4) by (cases b) simp_all
  then have "TyFloat \<in> type_of ` set d" using assms(2) by force
  ultimately have "{TyInt, TyFloat} \<subseteq> type_of ` set d" by simp
  then have "card {TyInt, TyFloat} \<le> card (type_of ` set d)"
    by (intro card_mono) auto
  then have "2 \<le> card (type_of ` set d)" by simp
  then show ?thesis using assms(1) by (auto simp: writeData_def Let_def)
qed

lemma writeProperty_mixed:
  assumes "a \<in> set d" "b \<in> set d" "is_int a" "is_float b"
  shows "writeProperty k (Some d) \<noteq> Inr bs"
  using writeData_mixed[OF assms]
  by (auto simp: writeProperty_def bind_err_Inr_iff)

lemma writeProperty_mixed_NotImplemented:
  assumes "a \<in> set d" "b \<in> set d" "is_int a" "is_float b"
    and "length k \<le> 127" "list_all (\<lambda>c. c < 256) k"
  shows "writeProperty k (Some d) = Inl NotImplementedError"
  using writeData_mixed[OF assms(1-4)] assms(5,6)
  by (auto simp: writeProperty_def pack_b_def writeString_def encode_latin1_def list_all_iff)

subsection \<open>Claims about the writer\<close>




text \<open>
  C9. An attribute array that holds both an integer and a float is rejected by \<open>writeData\<close>
  with a NotImplementedError, and so is the property by \<open>writeProperty\<close>. When such an array
  is among the properties \<open>write_meshfile\<close> emits for a tree, \<open>write_meshfile\<close> fails and
  leaves the file system as it was (with the NotImplementedError when nothing else in the tree
  raises another exception). Whatever the exception, a failing \<open>write_meshfile\<close> has written
  nothing: the file is opened only after the whole byte string was built.
\<close>

theorem mixed_array_rejected:
  "(a \<in> set data \<and> b \<in> set data \<and> is_int a \<and> is_float b \<longrightarrow>
      writeData data = Inl NotImplementedError
      \<and> (length k \<le> 127 \<and> list_all (\<lambda>c. c < 256) k \<longrightarrow>
           writeProperty k (Some data) = Inl NotImplementedError)
      \<and> (TProp k (Some data) \<in> set (mesh_tokens t) \<longrightarrow>
           (\<exists>e. write_meshfile fs p t = (Inl e, fs)) \<and>
           ((\<forall>tok\<in>set (mesh_tokens t). \<forall>e. write_token tok = Inl e \<longrightarrow> e = NotImplementedError) \<longrightarrow>
              write_meshfile fs p t = (Inl NotImplementedError, fs))))
   \<and> (write_meshfile fs p t = (Inl e', fs') \<longrightarrow> fs' = fs)"
proof -
  have bad: "\<And>bs. a \<in> set data \<Longrightarrow> b \<in> set data \<Longrightarrow> is_int a \<Longrightarrow> is_float b \<Longrightarrow>
      write_token (TProp k (Some data)) \<noteq> Inr bs"
    by (simp add: writeProperty_mixed)
  show ?thesis
    using write_meshfile_fails [of "TProp k (Some data)" t fs p]
      write_meshfile_fails_NotImplemented [of "TProp k (Some data)" t fs p] bad
      writeData_mixed [of a data b] writeProperty_mixed_NotImplemented [of a data b k]
      write_meshfile_failure_keeps_fs [of fs p t e' fs']
    by blast
qed

theorem mixed_array_rejected_witness:
  "PInt 1 \<in> set [PInt 1, PFloat 0] \<and> PFloat 0 \<in> set [PInt 1, PFloat 0]
   \<and> is_int (PInt 1) \<and> is_float (PFloat 0)
   \<and> writeData [PInt 1, PFloat 0] = Inl NotImplementedError
   \<and> length (ascii ''lod'') \<le> 127 \<and> list_all (\<lambda>c. c < 256) (ascii ''lod'')
   \<and> writeProperty (ascii ''lod'') (Some [PInt 1, PFloat 0]) = Inl NotImplementedError
   \<and> TProp (ascii ''lod'') (Some [PInt 1, PFloat 0]) \<in> set (mesh_tokens
        (Element (ascii ''File'') [(ascii ''pdxasset'', [PInt 1, PInt 0])]
           [Element (ascii ''object'') []
              [Element (ascii ''shape'') [(ascii ''lod'', [PInt 1, PFloat 0])] []]]))
   \<and> write_meshfile Map.empty ''a.mesh''
        (Element (ascii ''File'') [(ascii ''pdxasset'', [PInt 1, PInt 0])]
           [Element (ascii ''object'') []
              [Element (ascii ''shape'') [(ascii ''lod'', [PInt 1, PFloat 0])] []]])
      = (Inl NotImplementedError, Map.empty)"
proof -
  let ?t = "Element (ascii ''File'') [(ascii ''pdxasset'', [PInt 1, PInt 0])]
           [Element (ascii ''object'') []
              [Element (ascii ''shape'') [(ascii ''lod'', [PInt 1, PFloat 0])] []]]"
  have toks: "mesh_tokens ?t =
     [TProp (ascii ''pdxasset'') (Some [PInt 1, PInt 0]), TObj 1 (ascii ''object''),
      TObj 2 (ascii ''shape''), TProp (ascii ''lod'') (Some [PInt 1, PFloat 0])]"
    by (simp add: mesh_tokens_def find_child_def get_def shape_tokens_def object_tokens_def
        props_tokens_def ascii_def)
  have mem: "TProp (ascii ''lod'') (Some [PInt 1, PFloat 0]) \<in> set (mesh_tokens ?t)"
    unfolding toks by simp
  have p1: "write_token (TProp (ascii ''pdxasset'') (Some [PInt 1, PInt 0])) = Inr [33, 8, 112, 100, 120, 97, 115, 115, 101, 116, 105, 2,
      0, 0, 0, 1, 0, 0, 0, 0, 0, 0, 0]"
    by code_simp
  have p2: "write_token (TObj 1 (ascii ''object'')) = Inr [91, 111, 98, 106, 101, 99, 116, 0]"
    by code_simp
  have p3: "write_token (TObj 2 (ascii ''shape'')) = Inr [91, 91, 115, 104, 97, 112, 101, 0]"
    by code_simp
  have p4: "write_token (TProp (ascii ''lod'') (Some [PInt 1, PFloat 0])) = Inl NotImplementedError"
    by code_simp
  have others: "\<forall>tok\<in>set (mesh_tokens ?t). \<forall>e. write_token tok = Inl e \<longrightarrow> e = NotImplementedError"
    unfolding toks using p1 p2 p3 p4 by simp
  have name: "length (ascii ''lod'') \<le> 127 \<and> list_all (\<lambda>c. c < 256) (ascii ''lod'')"
    by (simp add: ascii_def)
  show ?thesis
    using mixed_array_rejected [of "PInt 1" "[PInt 1, PFloat 0]" "PFloat 0" "ascii ''lod''" ?t
        Map.empty "''a.mesh''"] mem others name
    by simp
qed

subsection \<open>The bytes the writer emits\<close>

lemma pack_is_bytes:
  "pack_is v = Inr bs \<Longrightarrow>
   bs = concat (map (\<lambda>x. case x of PInt i \<Rightarrow> le32 (word_of_int i) | _ \<Rightarrow> []) v)"
proof (induction v arbitrary: bs)
  case Nil then show ?case by simp
next
  case (Cons x v)
  then show ?case
    by (cases x) (auto simp: bind_err_Inr_iff pack_i_def split: if_splits)
qed

lemma pack_fs_bytes:
  "pack_fs v = Inr bs \<Longrightarrow>
   bs = concat (map (\<lambda>x. case x of PFloat w \<Rightarrow> le32 w | _ \<Rightarrow> []) v)"
proof (induction v arbitrary: bs)
  case Nil then show ?case by simp
next
  case (Cons x v)
  then show ?case
    by (cases x) (auto simp: bind_err_Inr_iff)
qed

lemma pack_i_bytes: "pack_i (int n) = Inr bs \<Longrightarrow> bs = le32 (of_nat n)"
  by (auto simp: pack_i_def split: if_splits)

lemma spec_data_bytes_simps:
  "spec_data_bytes [] = []"
  "spec_data_bytes (PInt i # xs) =
     0x69 # le32 (of_nat (length (PInt i # xs)))
     @ concat (map (\<lambda>x. case x of PInt i \<Rightarrow> le32 (word_of_int i) | _ \<Rightarrow> []) (PInt i # xs))"
  "spec_data_bytes (PFloat w # xs) =
     0x66 # le32 (of_nat (length (PFloat w # xs)))
     @ concat (map (\<lambda>x. case x of PFloat w \<Rightarrow> le32 w | _ \<Rightarrow> []) (PFloat w # xs))"
  "spec_data_bytes (PStr s # xs) =
     0x73 # le32 1 @ le32 (of_nat (length s + 1)) @ map of_nat s @ [0]"
  by (simp_all only: spec_data_bytes_def list.case pyval.case)

lemma writeData_ints_bytes:
  assumes "writeData v = Inr bs" "v = PInt i # xs"
  shows "bs = spec_data_bytes v"
proof -
  have ne: "card (type_of ` set v) \<noteq> 0" using assms(2) by simp
  have "\<not> list_all is_float v" "\<not> list_all is_str v" using assms(2) by simp_all
  with assms(1) ne have
    *: "bind_err (pack_i (int (length v))) (\<lambda>cnt.
           bind_err (pack_is v) (\<lambda>vals. Inr ([0x69] @ cnt @ vals))) = Inr bs"
    unfolding writeData_def Let_def by (simp split: if_splits)
  then obtain cnt vals where c: "pack_i (int (length v)) = Inr cnt" and p: "pack_is v = Inr vals"
    and bs: "bs = [0x69] @ cnt @ vals"
    unfolding bind_err_Inr_iff by blast
  have "cnt = le32 (of_nat (length v))" using c by (rule pack_i_bytes)
  moreover have "vals = concat (map (\<lambda>x. case x of PInt i \<Rightarrow> le32 (word_of_int i) | _ \<Rightarrow> []) v)"
    using p by (rule pack_is_bytes)
  ultimately show ?thesis
    unfolding bs assms(2) spec_data_bytes_simps by simp
qed

lemma writeData_floats_bytes:
  assumes "writeData v = Inr bs" "v = PFloat w # xs"
  shows "bs = spec_data_bytes v"
proof -
  have ne: "card (type_of ` set v) \<noteq> 0" using assms(2) by simp
  have "\<not> list_all is_int v" "\<not> list_all is_str v" using assms(2) by simp_all
  with assms(1) ne have
    *: "bind_err (pack_i (int (length v))) (\<lambda>cnt.
           bind_err (pack_fs v) (\<lambda>vals. Inr ([0x66] @ cnt @ vals))) = Inr bs"
    unfolding writeData_def Let_def by (simp split: if_splits)
  then obtain cnt vals where c: "pack_i (int (length v)) = Inr cnt" and p: "pack_fs v = Inr vals"
    and bs: "bs = [0x66] @ cnt @ vals"
    unfolding bind_err_Inr_iff by blast
  have "cnt = le32 (of_nat (length v))" using c by (rule pack_i_bytes)
  moreover have "vals = concat (map (\<lambda>x. case x of PFloat w \<Rightarrow> le32 w | _ \<Rightarrow> []) v)"
    using p by (rule pack_fs_bytes)
  ultimately show ?thesis
    unfolding bs assms(2) spec_data_bytes_simps by simp
qed

lemma writeData_str_bytes:
  assumes "writeData v = Inr bs" "v = PStr s # xs"
  shows "bs = spec_data_bytes v"
proof -
  have ne: "card (type_of ` set v) \<noteq> 0" using assms(2) by simp
  have "\<not> list_all is_int v" "\<not> list_all is_float v" "hd v = PStr s" using assms(2) by simp_all
  with assms(1) ne have
    *: "bind_err (pack_i 1) (\<lambda>cnt.
                bind_err (pack_i (int (length s) + 1)) (\<lambda>len.
                bind_err (writeString s) (\<lambda>str.
                Inr ([0x73] @ cnt @ len @ str @ [0])))) = Inr bs"
    unfolding writeData_def Let_def by (simp split: if_splits)
  then obtain cnt len str where c: "pack_i 1 = Inr cnt"
    and l: "pack_i (int (length s) + 1) = Inr len" and w: "writeString s = Inr str"
    and bs: "bs = [0x73] @ cnt @ len @ str @ [0]"
    unfolding bind_err_Inr_iff by blast
  have "cnt = le32 1" using c by (simp add: pack_i_def)
  moreover have "len = le32 (of_nat (length s + 1))"
    using l pack_i_bytes [of "length s + 1" len] by (simp add: add.commute)
  moreover have "str = map of_nat s"
    using w by (auto simp: writeString_def encode_latin1_def split: if_splits)
  ultimately show ?thesis
    unfolding bs assms(2) spec_data_bytes_simps by simp
qed

lemma writeData_bytes:
  assumes "writeData v = Inr bs"
  shows "bs = spec_data_bytes v"
proof (cases v)
  case Nil
  with assms show ?thesis by (simp add: writeData_def spec_data_bytes_def)
next
  case (Cons x xs)
  show ?thesis
  proof (cases x)
    case (PInt i) with Cons assms show ?thesis using writeData_ints_bytes by blast
  next
    case (PFloat w) with Cons assms show ?thesis using writeData_floats_bytes by blast
  next
    case (PStr s) with Cons assms show ?thesis using writeData_str_bytes by blast
  qed
qed

lemma writeProperty_bytes:
  assumes "writeProperty name (Some v) = Inr bs"
  shows "bs = spec_property_bytes name v"
proof -
  from assms obtain len nm dat where "pack_b (int (length name)) = Inr len"
    "writeString name = Inr nm" "writeData v = Inr dat" "bs = [0x21] @ len @ nm @ dat"
    by (auto simp: writeProperty_def bind_err_Inr_iff)
  then show ?thesis
    using writeData_bytes [of v dat]
    by (auto simp: spec_property_bytes_def pack_b_def writeString_def encode_latin1_def
        split: if_splits)
qed

lemma writeObject_bytes:
  "writeObject x d = Inr bs \<Longrightarrow> bs = spec_object_bytes d (tag x)"
  by (auto simp: writeObject_def spec_object_bytes_def writeString_def encode_latin1_def
      bind_err_Inr_iff Let_def split: if_splits)

lemma write_token_bytes: "write_token tok = Inr bs \<Longrightarrow> bs = spec_token_bytes tok"
proof (cases tok)
  case (TObj d n)
  assume "write_token tok = Inr bs"
  with TObj show ?thesis using writeObject_bytes [of "Element n [] []" d bs] by simp
next
  case (TProp k v)
  assume a: "write_token tok = Inr bs"
  show ?thesis
  proof (cases v)
    case None
    with a TProp show ?thesis by (simp add: writeProperty_def bind_err_Inr_iff)
  next
    case (Some x)
    with a TProp show ?thesis using writeProperty_bytes by simp
  qed
qed

lemma write_tokens_bytes:
  "write_tokens toks = Inr bs \<Longrightarrow> bs = concat (map spec_token_bytes toks)"
proof (induction toks arbitrary: bs)
  case Nil then show ?case by simp
next
  case (Cons t toks)
  then show ?case
    using write_token_bytes by (auto simp: bind_err_Inr_iff simp del: write_token.simps)
qed

lemma concat_map_split:
  "x \<in> set xs \<Longrightarrow> \<exists>A B. concat (map f xs) = A @ f x @ B"
proof -
  assume "x \<in> set xs"
  then obtain ys zs where "xs = ys @ x # zs" by (auto simp: in_set_conv_decomp)
  then have "concat (map f xs) = concat (map f ys) @ f x @ concat (map f zs)" by simp
  then show ?thesis by blast
qed

lemma mesh_tokens_child:
  assumes "find_child t (ascii ''object'') = Some obj" "shape \<in> set (children obj)"
    "m \<in> set (children shape)"
  shows "\<exists>A B. mesh_tokens t = A @ child_tokens m @ B"
proof -
  obtain A1 B1 where 1: "concat (map child_tokens (children shape)) = A1 @ child_tokens m @ B1"
    using concat_map_split [OF assms(3)] by blast
  obtain A2 B2 where 2: "concat (map shape_tokens (children obj)) = A2 @ shape_tokens shape @ B2"
    using concat_map_split [OF assms(2)] by blast
  have "shape_tokens shape = (object_tokens 2 [ascii ''lod''] shape @ A1) @ child_tokens m @ B1"
    by (simp add: shape_tokens_def 1)
  with 2 have "concat (map shape_tokens (children obj))
      = (A2 @ object_tokens 2 [ascii ''lod''] shape @ A1) @ child_tokens m @ (B1 @ B2)"
    by simp
  then obtain A3 B3 where 3: "concat (map shape_tokens (children obj)) = A3 @ child_tokens m @ B3"
    by blast
  let ?L = "case find_child t (ascii ''locator'') of
          None \<Rightarrow> []
        | Some locator_xml \<Rightarrow>
            TObj 1 (tag locator_xml)
            # concat (map (object_tokens 2 [ascii ''p'', ascii ''q'', ascii ''pa'', ascii ''tx''])
                        (children locator_xml))"
  have "mesh_tokens t =
     (TProp (ascii ''pdxasset'') (get t (ascii ''pdxasset'')) # TObj 1 (tag obj) # A3)
     @ child_tokens m @ (B3 @ ?L)"
    unfolding mesh_tokens_def assms(1) option.case 3 by simp
  then show ?thesis by blast
qed

lemma props_tokens_bytes:
  "concat (map spec_token_bytes (props_tokens props m))
   = concat (map (\<lambda>k. case get m k of None \<Rightarrow> [] | Some v \<Rightarrow> spec_property_bytes k v) props)"
  by (induction props) (auto simp: props_tokens_def)

lemma mesh_datastring_bytes:
  assumes "mesh_datastring t = Inr bs"
  shows "bs = header @ concat (map spec_token_bytes (mesh_tokens t))"
proof -
  from assms obtain b where "write_tokens (mesh_tokens t) = Inr b" "bs = header @ b"
    by (auto simp: mesh_datastring_tokens bind_err_Inr_iff split: if_splits)
  then show ?thesis using write_tokens_bytes by blast
qed

lemma write_child_same_contents:
  assumes "tag m' = tag m" "children m' = children m" "map_of (attrib m') = map_of (attrib m)"
  shows "write_child m' = write_child m"
proof -
  have "child_tokens m' = child_tokens m"
    unfolding child_tokens_def props_tokens_def mesh_sub_tokens_def find_child_def get_def
        object_tokens_def assms ..
  then show ?thesis by (simp only: write_child_tokens)
qed

text \<open>
  C7. When \<open>write_meshfile\<close> writes a tree, the bytes it stores for a mesh node (a child
  tagged \<open>mesh\<close> of a shape under the \<open>object\<close> root) are the object token at depth 3
  followed at once by the property tokens of the attributes present on the node, in the fixed
  order p, n, ta, u0, u1, u2, u3, tri, boundingsphere, an absent attribute contributing no
  byte. The bytes of each property are those of the format's layout (\<open>spec_property_bytes\<close>).
  They depend on the attribute dictionary only through the value stored under each name:
  a node whose dictionary holds the same values in another insertion order is written alike.
\<close>

theorem mesh_attributes_emitted_in_order:
  "fst (write_meshfile fs path t) = Inr () \<Longrightarrow>
   find_child t (ascii ''object'') = Some obj \<Longrightarrow>
   shape \<in> set (children obj) \<Longrightarrow>
   m \<in> set (children shape) \<Longrightarrow>
   tag m = ascii ''mesh'' \<Longrightarrow>
   (\<exists>pre post.
      snd (write_meshfile fs path t) path =
        Some (pre
              @ spec_object_bytes 3 (ascii ''mesh'')
              @ concat (map (\<lambda>k. case get m k of None \<Rightarrow> [] | Some v \<Rightarrow> spec_property_bytes k v)
                  [ascii ''p'', ascii ''n'', ascii ''ta'', ascii ''u0'', ascii ''u1'', ascii ''u2'',
              ascii ''u3'', ascii ''tri'', ascii ''boundingsphere''])
              @ post))
   \<and> (tag m' = tag m \<and> children m' = children m \<and> map_of (attrib m') = map_of (attrib m)
        \<longrightarrow> write_child m' = write_child m)"
proof -
  assume ok: "fst (write_meshfile fs path t) = Inr ()"
    and obj: "find_child t (ascii ''object'') = Some obj"
    and shape: "shape \<in> set (children obj)"
    and m: "m \<in> set (children shape)"
    and mesh: "tag m = ascii ''mesh''"
  from ok obtain bs where bs: "mesh_datastring t = Inr bs"
    by (cases "mesh_datastring t") (simp_all add: write_meshfile_def)
  then have stored: "snd (write_meshfile fs path t) path = Some bs"
    by (simp add: write_meshfile_def)
  obtain A B where AB: "mesh_tokens t = A @ child_tokens m @ B"
    using mesh_tokens_child [OF obj shape m] by blast
  let ?subs = "mesh_sub_tokens m (ascii ''aabb'') [ascii ''min'', ascii ''max'']
        @ mesh_sub_tokens m (ascii ''material'')
            [ascii ''shader'', ascii ''diff'', ascii ''n'', ascii ''spec'']
        @ mesh_sub_tokens m (ascii ''skin'') [ascii ''bones'', ascii ''ix'', ascii ''w'']"
  have ct: "child_tokens m = TObj 3 (ascii ''mesh'') # props_tokens mesh_props m @ ?subs"
    unfolding child_tokens_def mesh by (simp only: if_True refl)
  have "bs = header @ concat (map spec_token_bytes (mesh_tokens t))"
    using bs by (rule mesh_datastring_bytes)
  also have "\<dots> = (header @ concat (map spec_token_bytes A))
        @ spec_object_bytes 3 (ascii ''mesh'')
        @ concat (map spec_token_bytes (props_tokens mesh_props m))
        @ (concat (map spec_token_bytes ?subs) @ concat (map spec_token_bytes B))"
    unfolding AB ct by simp
  finally have "bs = (header @ concat (map spec_token_bytes A))
        @ spec_object_bytes 3 (ascii ''mesh'')
        @ concat (map (\<lambda>k. case get m k of None \<Rightarrow> [] | Some v \<Rightarrow> spec_property_bytes k v)
                  [ascii ''p'', ascii ''n'', ascii ''ta'', ascii ''u0'', ascii ''u1'', ascii ''u2'',
              ascii ''u3'', ascii ''tri'', ascii ''boundingsphere''])
        @ (concat (map spec_token_bytes ?subs) @ concat (map spec_token_bytes B))"
    unfolding props_tokens_bytes mesh_props_def .
  with stored have 1: "\<exists>pre post.
      snd (write_meshfile fs path t) path =
        Some (pre
              @ spec_object_bytes 3 (ascii ''mesh'')
              @ concat (map (\<lambda>k. case get m k of None \<Rightarrow> [] | Some v \<Rightarrow> spec_property_bytes k v)
                  [ascii ''p'', ascii ''n'', ascii ''ta'', ascii ''u0'', ascii ''u1'', ascii ''u2'',
              ascii ''u3'', ascii ''tri'', ascii ''boundingsphere''])
              @ post)"
    by blast
  have 2: "tag m' = tag m \<and> children m' = children m \<and> map_of (attrib m') = map_of (attrib m)
        \<longrightarrow> write_child m' = write_child m"
    using write_child_same_contents by blast
  from 1 2 show ?thesis by (rule conjI)
qed

theorem mesh_attributes_emitted_in_order_witness:
  "fst (write_meshfile Map.empty ''a.mesh'' (Element (ascii ''File'') [(ascii ''pdxasset'', [PInt 1, PInt 0])]
        [Element (ascii ''object'') []
          [Element (ascii ''shape'') []
            [Element (ascii ''mesh'')
               [(ascii ''tri'', [PInt 0, PInt 1, PInt 2]), (ascii ''p'', [PFloat 0x3F800000])] []]]])) = Inr ()
   \<and> find_child (Element (ascii ''File'') [(ascii ''pdxasset'', [PInt 1, PInt 0])]
        [Element (ascii ''object'') []
          [Element (ascii ''shape'') []
            [Element (ascii ''mesh'')
               [(ascii ''tri'', [PInt 0, PInt 1, PInt 2]), (ascii ''p'', [PFloat 0x3F800000])] []]]]) (ascii ''object'') = Some (Element (ascii ''object'') []
          [Element (ascii ''shape'') []
            [Element (ascii ''mesh'')
               [(ascii ''tri'', [PInt 0, PInt 1, PInt 2]), (ascii ''p'', [PFloat 0x3F800000])] []]])
   \<and> (Element (ascii ''shape'') []
            [Element (ascii ''mesh'')
               [(ascii ''tri'', [PInt 0, PInt 1, PInt 2]), (ascii ''p'', [PFloat 0x3F800000])] []]) \<in> set (children (Element (ascii ''object'') []
          [Element (ascii ''shape'') []
            [Element (ascii ''mesh'')
               [(ascii ''tri'', [PInt 0, PInt 1, PInt 2]), (ascii ''p'', [PFloat 0x3F800000])] []]]))
   \<and> (Element (ascii ''mesh'')
               [(ascii ''tri'', [PInt 0, PInt 1, PInt 2]), (ascii ''p'', [PFloat 0x3F800000])] []) \<in> set (children (Element (ascii ''shape'') []
            [Element (ascii ''mesh'')
               [(ascii ''tri'', [PInt 0, PInt 1, PInt 2]), (ascii ''p'', [PFloat 0x3F800000])] []]))
   \<and> tag (Element (ascii ''mesh'')
               [(ascii ''tri'', [PInt 0, PInt 1, PInt 2]), (ascii ''p'', [PFloat 0x3F800000])] []) = ascii ''mesh''
   \<and> snd (write_meshfile Map.empty ''a.mesh'' (Element (ascii ''File'') [(ascii ''pdxasset'', [PInt 1, PInt 0])]
        [Element (ascii ''object'') []
          [Element (ascii ''shape'') []
            [Element (ascii ''mesh'')
               [(ascii ''tri'', [PInt 0, PInt 1, PInt 2]), (ascii ''p'', [PFloat 0x3F800000])] []]]])) ''a.mesh'' = Some [64, 64, 98, 64, 33, 8, 112, 100, 120, 97, 115, 115, 101, 116, 105, 2, 0,
   0, 0, 1, 0, 0, 0, 0, 0, 0, 0, 91, 111, 98, 106, 101, 99, 116, 0, 91, 91,
   115, 104, 97, 112, 101, 0, 91, 91, 91, 109, 101, 115, 104, 0, 33, 1, 112,
   102, 1, 0, 0, 0, 0, 0, 128, 63, 33, 3, 116, 114, 105, 105, 3, 0, 0, 0, 0,
   0, 0, 0, 1, 0, 0, 0, 2, 0, 0, 0]
   \<and> (\<exists>pre post.
        snd (write_meshfile Map.empty ''a.mesh'' (Element (ascii ''File'') [(ascii ''pdxasset'', [PInt 1, PInt 0])]
        [Element (ascii ''object'') []
          [Element (ascii ''shape'') []
            [Element (ascii ''mesh'')
               [(ascii ''tri'', [PInt 0, PInt 1, PInt 2]), (ascii ''p'', [PFloat 0x3F800000])] []]]])) ''a.mesh'' =
          Some (pre
                @ spec_object_bytes 3 (ascii ''mesh'')
                @ (spec_property_bytes (ascii ''p'') [PFloat 0x3F800000]
                   @ spec_property_bytes (ascii ''tri'') [PInt 0, PInt 1, PInt 2])
                @ post))
   \<and> write_child (Element (ascii ''mesh'')
               [(ascii ''p'', [PFloat 0x3F800000]), (ascii ''tri'', [PInt 0, PInt 1, PInt 2])] []) = write_child (Element (ascii ''mesh'')
               [(ascii ''tri'', [PInt 0, PInt 1, PInt 2]), (ascii ''p'', [PFloat 0x3F800000])] [])"
proof -
  have ok: "fst (write_meshfile Map.empty ''a.mesh'' (Element (ascii ''File'') [(ascii ''pdxasset'', [PInt 1, PInt 0])]
        [Element (ascii ''object'') []
          [Element (ascii ''shape'') []
            [Element (ascii ''mesh'')
               [(ascii ''tri'', [PInt 0, PInt 1, PInt 2]), (ascii ''p'', [PFloat 0x3F800000])] []]]])) = Inr ()"
    by code_simp
  have obj: "find_child (Element (ascii ''File'') [(ascii ''pdxasset'', [PInt 1, PInt 0])]
        [Element (ascii ''object'') []
          [Element (ascii ''shape'') []
            [Element (ascii ''mesh'')
               [(ascii ''tri'', [PInt 0, PInt 1, PInt 2]), (ascii ''p'', [PFloat 0x3F800000])] []]]]) (ascii ''object'') = Some (Element (ascii ''object'') []
          [Element (ascii ''shape'') []
            [Element (ascii ''mesh'')
               [(ascii ''tri'', [PInt 0, PInt 1, PInt 2]), (ascii ''p'', [PFloat 0x3F800000])] []]])"
    by (simp add: find_child_def)
  have shape: "(Element (ascii ''shape'') []
            [Element (ascii ''mesh'')
               [(ascii ''tri'', [PInt 0, PInt 1, PInt 2]), (ascii ''p'', [PFloat 0x3F800000])] []]) \<in> set (children (Element (ascii ''object'') []
          [Element (ascii ''shape'') []
            [Element (ascii ''mesh'')
               [(ascii ''tri'', [PInt 0, PInt 1, PInt 2]), (ascii ''p'', [PFloat 0x3F800000])] []]]))"
    by simp
  have m: "(Element (ascii ''mesh'')
               [(ascii ''tri'', [PInt 0, PInt 1, PInt 2]), (ascii ''p'', [PFloat 0x3F800000])] []) \<in> set (children (Element (ascii ''shape'') []
            [Element (ascii ''mesh'')
               [(ascii ''tri'', [PInt 0, PInt 1, PInt 2]), (ascii ''p'', [PFloat 0x3F800000])] []]))"
    by simp
  have mesh: "tag (Element (ascii ''mesh'')
               [(ascii ''tri'', [PInt 0, PInt 1, PInt 2]), (ascii ''p'', [PFloat 0x3F800000])] []) = ascii ''mesh''"
    by simp
  have bytes: "snd (write_meshfile Map.empty ''a.mesh'' (Element (ascii ''File'') [(ascii ''pdxasset'', [PInt 1, PInt 0])]
        [Element (ascii ''object'') []
          [Element (ascii ''shape'') []
            [Element (ascii ''mesh'')
               [(ascii ''tri'', [PInt 0, PInt 1, PInt 2]), (ascii ''p'', [PFloat 0x3F800000])] []]]])) ''a.mesh'' = Some [64, 64, 98, 64, 33, 8, 112, 100, 120, 97, 115, 115, 101, 116, 105, 2, 0,
   0, 0, 1, 0, 0, 0, 0, 0, 0, 0, 91, 111, 98, 106, 101, 99, 116, 0, 91, 91,
   115, 104, 97, 112, 101, 0, 91, 91, 91, 109, 101, 115, 104, 0, 33, 1, 112,
   102, 1, 0, 0, 0, 0, 0, 128, 63, 33, 3, 116, 114, 105, 105, 3, 0, 0, 0, 0,
   0, 0, 0, 1, 0, 0, 0, 2, 0, 0, 0]"
    by code_simp
  have props: "concat (map (\<lambda>k. case get (Element (ascii ''mesh'')
               [(ascii ''tri'', [PInt 0, PInt 1, PInt 2]), (ascii ''p'', [PFloat 0x3F800000])] []) k of None \<Rightarrow> [] | Some v \<Rightarrow> spec_property_bytes k v)
                  [ascii ''p'', ascii ''n'', ascii ''ta'', ascii ''u0'', ascii ''u1'', ascii ''u2'',
              ascii ''u3'', ascii ''tri'', ascii ''boundingsphere''])
      = spec_property_bytes (ascii ''p'') [PFloat 0x3F800000]
        @ spec_property_bytes (ascii ''tri'') [PInt 0, PInt 1, PInt 2]"
    by (simp add: get_def ascii_def)
  have maps: "tag (Element (ascii ''mesh'')
               [(ascii ''p'', [PFloat 0x3F800000]), (ascii ''tri'', [PInt 0, PInt 1, PInt 2])] []) = tag (Element (ascii ''mesh'')
               [(ascii ''tri'', [PInt 0, PInt 1, PInt 2]), (ascii ''p'', [PFloat 0x3F800000])] []) \<and> children (Element (ascii ''mesh'')
               [(ascii ''p'', [PFloat 0x3F800000]), (ascii ''tri'', [PInt 0, PInt 1, PInt 2])] []) = children (Element (ascii ''mesh'')
               [(ascii ''tri'', [PInt 0, PInt 1, PInt 2]), (ascii ''p'', [PFloat 0x3F800000])] []) \<and> map_of (attrib (Element (ascii ''mesh'')
               [(ascii ''p'', [PFloat 0x3F800000]), (ascii ''tri'', [PInt 0, PInt 1, PInt 2])] [])) = map_of (attrib (Element (ascii ''mesh'')
               [(ascii ''tri'', [PInt 0, PInt 1, PInt 2]), (ascii ''p'', [PFloat 0x3F800000])] []))"
    by (auto simp: ascii_def fun_eq_iff)
  from mesh_attributes_emitted_in_order [OF ok obj shape m mesh, of "(Element (ascii ''mesh'')
               [(ascii ''p'', [PFloat 0x3F800000]), (ascii ''tri'', [PInt 0, PInt 1, PInt 2])] [])"] maps
  have "(\<exists>pre post.
        snd (write_meshfile Map.empty ''a.mesh'' (Element (ascii ''File'') [(ascii ''pdxasset'', [PInt 1, PInt 0])]
        [Element (ascii ''object'') []
          [Element (ascii ''shape'') []
            [Element (ascii ''mesh'')
               [(ascii ''tri'', [PInt 0, PInt 1, PInt 2]), (ascii ''p'', [PFloat 0x3F800000])] []]]])) ''a.mesh'' =
          Some (pre
                @ spec_object_bytes 3 (ascii ''mesh'')
                @ (spec_property_bytes (ascii ''p'') [PFloat 0x3F800000]
                   @ spec_property_bytes (ascii ''tri'') [PInt 0, PInt 1, PInt 2])
                @ post))
     \<and> write_child (Element (ascii ''mesh'')
               [(ascii ''p'', [PFloat 0x3F800000]), (ascii ''tri'', [PInt 0, PInt 1, PInt 2])] []) = write_child (Element (ascii ''mesh'')
               [(ascii ''tri'', [PInt 0, PInt 1, PInt 2]), (ascii ''p'', [PFloat 0x3F800000])] [])"
    unfolding props by blast
  with ok obj shape m mesh bytes show ?thesis by blast
qed

section \<open>Properties of the reader\<close>

subsection \<open>Reading back single tokens\<close>

lemma le32_inverse_bits:
  "ucast (ucast w :: 8 word) OR push_bit 8 (ucast (ucast (drop_bit 8 w) :: 8 word))
        OR push_bit 16 (ucast (ucast (drop_bit 16 w) :: 8 word))
        OR push_bit 24 (ucast (ucast (drop_bit 24 w) :: 8 word)) = (w :: 32 word)"
proof (rule bit_word_eqI)
  fix n assume "n < LENGTH(32)"
  then have n: "n < 32" by simp
  consider "n < 8" | "8 \<le> n" "n < 16" | "16 \<le> n" "n < 24" | "24 \<le> n"
    by linarith
  then show "bit (ucast (ucast w :: 8 word) OR push_bit 8 (ucast (ucast (drop_bit 8 w) :: 8 word))
        OR push_bit 16 (ucast (ucast (drop_bit 16 w) :: 8 word))
        OR push_bit 24 (ucast (ucast (drop_bit 24 w) :: 8 word)) :: 32 word) n = bit w n"
  proof cases
    case 1 then show ?thesis using n by (simp add: bit_simps)
  next
    case 2 then show ?thesis using n by (auto simp: bit_simps)
  next
    case 3 then show ?thesis using n by (auto simp: bit_simps)
  next
    case 4 then show ?thesis using n by (auto simp: bit_simps)
  qed
qed


lemma words_le_le32 [simp]: "words_le (le32 w @ rest) = w # words_le rest"
  using le32_inverse_bits [of w] by (simp add: le32_def)

lemma length_le32 [simp]: "length (le32 w) = 4"
  by (simp add: le32_def)

lemma sint_word_of_int_32:
  "- (2 ^ 31) \<le> x \<Longrightarrow> x < 2 ^ 31 \<Longrightarrow> sint (word_of_int x :: 32 word) = x"
  by (simp add: signed_of_int signed_take_bit_int_eq_self)

lemma sint_byte_of_int:
  "- 128 \<le> x \<Longrightarrow> x \<le> 127 \<Longrightarrow> sint (word_of_int x :: 8 word) = x"
  by (simp add: signed_of_int signed_take_bit_int_eq_self)

lemma unat_of_nat_byte: "c < 256 \<Longrightarrow> unat (of_nat c :: 8 word) = c"
  by (simp add: unat_of_nat)

lemma unpack_from_at:
  "length bs = n \<Longrightarrow> unpack_from n (pre @ bs @ rest) (int (length pre)) = Inr bs"
  unfolding unpack_from_def Let_def by simp

lemma unpack_byte_at: "unpack_byte (pre @ b # rest) (int (length pre)) = Inr b"
proof -
  have "unpack_from 1 (pre @ [b] @ rest) (int (length pre)) = Inr [b]"
    by (rule unpack_from_at) simp
  then show ?thesis by (simp add: unpack_byte_def)
qed

lemma unpack_i_at:
  "unpack_i (pre @ le32 w @ rest) (int (length pre)) = Inr (sint w)"
proof -
  have "unpack_from 4 (pre @ le32 w @ rest) (int (length pre)) = Inr (le32 w)"
    by (rule unpack_from_at) simp
  moreover have "words_le (le32 w) = [w]"
    using words_le_le32 [of w "[]"] by simp
  ultimately show ?thesis by (simp add: unpack_i_def)
qed

declare parseObject_depth.simps [simp del] parseObject_name.simps [simp del]

lemma decode_utf8_byte_marker [simp]: "decode_utf8_byte 0x5B = Inr 0x5B"
  by (simp add: decode_utf8_byte_def)

lemma parseObject_depth_run:
  assumes "decode_utf8_byte c = Inr ch" "ch \<noteq> 0x5B"
  shows "parseObject_depth (pre @ replicate d 0x5B @ c # rest) (int (length pre)) k
         = Inr (k + d, int (length pre) + int d)"
proof (induction d arbitrary: pre k)
  case 0
  show ?case
    using assms by (subst parseObject_depth.simps) (simp add: unpack_byte_at)
next
  case (Suc d)
  have "parseObject_depth (pre @ replicate (Suc d) 0x5B @ c # rest) (int (length pre)) k
        = parseObject_depth ((pre @ [0x5B]) @ replicate d 0x5B @ c # rest) (int (length (pre @ [0x5B]))) (k + 1)"
    by (subst parseObject_depth.simps) (simp add: unpack_byte_at add.commute)
  also have "\<dots> = Inr (k + 1 + d, int (length (pre @ [0x5B])) + int d)"
    by (rule Suc.IH)
  finally show ?case by simp
qed

lemma parseObject_name_run:
  assumes "list_all (\<lambda>c. 0 < c \<and> c < 256) name"
  shows "parseObject_name (pre @ map of_nat name @ 0 # rest) (int (length pre)) acc
         = Inr (acc @ name, int (length pre) + int (length name))"
  using assms
proof (induction name arbitrary: pre acc)
  case Nil
  show ?case
    by (subst parseObject_name.simps) (simp add: unpack_byte_at)
next
  case (Cons c name)
  then have c: "0 < c" "c < 256" and name: "list_all (\<lambda>c. 0 < c \<and> c < 256) name" by simp_all
  have nz: "(of_nat c :: byte) \<noteq> 0"
    using c unat_of_nat_byte [of c] by (metis less_irrefl unat_0)
  have "parseObject_name (pre @ map of_nat (c # name) @ 0 # rest) (int (length pre)) acc
        = parseObject_name ((pre @ [of_nat c]) @ map of_nat name @ 0 # rest)
            (int (length (pre @ [of_nat c :: byte]))) (acc @ [c])"
    using nz c by (subst parseObject_name.simps)
      (simp add: unpack_byte_at add.commute decode_latin1_def unat_of_nat_byte)
  also have "\<dots> = Inr ((acc @ [c]) @ name, int (length (pre @ [of_nat c :: byte])) + int (length name))"
    by (rule Cons.IH [OF name])
  finally show ?case by simp
qed

lemma decode_utf8_byte_of_nat: "c < 0x80 \<Longrightarrow> decode_utf8_byte (of_nat c) = Inr c"
proof -
  assume c: "c < 0x80"
  then have "unat (of_nat c :: byte) = c" by (simp add: unat_of_nat_byte)
  moreover from this c have "(of_nat c :: byte) < 0x80"
    by (simp add: word_less_nat_alt)
  ultimately show ?thesis by (simp add: decode_utf8_byte_def)
qed

lemma parseObject_token:
  assumes "valid_tag name"
  shows "parseObject (pre @ replicate d 0x5B @ map of_nat name @ 0 # rest) (int (length pre))
         = Inr (name, d, int (length pre) + int d + int (length name) + 1)"
proof -
  from assms have chars: "list_all (\<lambda>c. 0 < c \<and> c < 256) name"
    by (simp add: valid_tag_def)
  obtain c rest' ch where split: "map of_nat name @ (0 :: byte) # rest = c # rest'"
    and dec: "decode_utf8_byte c = Inr ch" "ch \<noteq> 0x5B"
  proof (cases name)
    case Nil
    then show ?thesis using that [of 0 rest 0] by (simp add: decode_utf8_byte_def)
  next
    case (Cons a as)
    with assms have "a \<noteq> 0x5B" "a < 0x80" by (simp_all add: valid_tag_def)
    then show ?thesis
      using that [of "of_nat a" "map of_nat as @ 0 # rest" a] Cons
      by (simp add: decode_utf8_byte_of_nat)
  qed
  have 1: "parseObject_depth (pre @ replicate d 0x5B @ map of_nat name @ 0 # rest) (int (length pre)) 0
        = Inr (d, int (length pre) + int d)"
    unfolding split using parseObject_depth_run [OF dec, of pre d rest' 0] by simp
  have 2: "parseObject_name ((pre @ replicate d 0x5B) @ map of_nat name @ 0 # rest)
             (int (length (pre @ replicate d (0x5B :: byte)))) []
        = Inr ([] @ name, int (length (pre @ replicate d (0x5B :: byte))) + int (length name))"
    by (rule parseObject_name_run [OF chars])
  show ?thesis
    using 1 2 by (simp add: parseObject_def)
qed

lemma write_token_TObj:
  "valid_tag name \<Longrightarrow>
   write_token (TObj d name) = Inr (replicate d 0x5B @ map of_nat name @ [0])"
  by (simp add: writeObject_def writeString_def encode_latin1_def valid_tag_def list_all_iff)

lemma map_unat_of_nat:
  "latin1 s \<Longrightarrow> map unat (map of_nat s :: bytes) = s"
  "latin1 s \<Longrightarrow> map (unat \<circ> (of_nat :: nat \<Rightarrow> byte)) s = s"
  by (induction s) (simp_all add: latin1_def unat_of_nat_byte)

lemma parseString_at:
  assumes "bs \<noteq> []"
  shows "parseString (pre @ bs @ rest) (int (length pre)) (int (length bs))
         = Inr (if last (map unat bs) = 0 then butlast (map unat bs) else map unat bs)"
proof -
  have "unpack_from (length bs) (pre @ bs @ rest) (int (length pre)) = Inr bs"
    by (rule unpack_from_at) simp
  then show ?thesis using assms by (simp add: parseString_def decode_latin1_def)
qed

lemma parseString_key:
  assumes "valid_key k"
  shows "parseString (pre @ map of_nat k @ rest) (int (length pre)) (int (length k)) = Inr k"
proof -
  from assms have k: "k \<noteq> []" "latin1 k" "last k \<noteq> 0" by (simp_all add: valid_key_def)
  have "parseString (pre @ (map of_nat k :: bytes) @ rest) (int (length pre))
          (int (length (map of_nat k :: bytes)))
        = Inr (if last (map unat (map of_nat k :: bytes)) = 0
               then butlast (map unat (map of_nat k :: bytes)) else map unat (map of_nat k :: bytes))"
    by (rule parseString_at) (use k in simp)
  then show ?thesis using k by (simp add: map_unat_of_nat)
qed

lemma parseString_data:
  assumes "latin1 s"
  shows "parseString (pre @ (map of_nat s @ [0]) @ rest) (int (length pre)) (int (length s) + 1) = Inr s"
proof -
  have "parseString (pre @ ((map of_nat s :: bytes) @ [0]) @ rest) (int (length pre))
          (int (length ((map of_nat s :: bytes) @ [0])))
        = Inr (if last (map unat ((map of_nat s :: bytes) @ [0])) = 0
               then butlast (map unat ((map of_nat s :: bytes) @ [0]))
               else map unat ((map of_nat s :: bytes) @ [0]))"
    by (rule parseString_at) simp
  then show ?thesis using assms by (simp add: map_unat_of_nat add.commute)
qed

lemma words_le_concat: "words_le (concat (map le32 ws) @ rest) = ws @ words_le rest"
  by (induction ws) simp_all

lemma words_le_Nil [simp]: "words_le [] = []"
  by simp

lemma length_concat_le32: "length (concat (map le32 ws)) = 4 * length ws"
  by (induction ws) simp_all

lemma ints_payload:
  "list_all int32 v \<Longrightarrow>
   concat (map (\<lambda>x. case x of PInt i \<Rightarrow> le32 (word_of_int i) | _ \<Rightarrow> []) v)
   = concat (map le32 (map (\<lambda>x. case x of PInt i \<Rightarrow> word_of_int i | _ \<Rightarrow> 0) v))"
proof (induction v)
  case Nil show ?case by simp
next
  case (Cons x v) then show ?case by (cases x) simp_all
qed

lemma ints_back:
  "list_all int32 v \<Longrightarrow>
   map (\<lambda>w. PInt (sint w)) (map (\<lambda>x. case x of PInt i \<Rightarrow> (word_of_int i :: 32 word) | _ \<Rightarrow> 0) v) = v"
proof (induction v)
  case Nil show ?case by simp
next
  case (Cons x v) then show ?case by (cases x) (simp_all add: sint_word_of_int_32)
qed

lemma floats_payload:
  "list_all is_float v \<Longrightarrow>
   concat (map (\<lambda>x. case x of PFloat w \<Rightarrow> le32 w | _ \<Rightarrow> []) v)
   = concat (map le32 (map (\<lambda>x. case x of PFloat w \<Rightarrow> w | _ \<Rightarrow> 0) v))"
proof (induction v)
  case Nil show ?case by simp
next
  case (Cons x v) then show ?case by (cases x) simp_all
qed

lemma floats_back:
  "list_all is_float v \<Longrightarrow>
   map PFloat (map (\<lambda>x. case x of PFloat w \<Rightarrow> w | _ \<Rightarrow> 0) v) = v"
proof (induction v)
  case Nil show ?case by simp
next
  case (Cons x v) then show ?case by (cases x) simp_all
qed

lemma sint_count: "int n < 2 ^ 31 \<Longrightarrow> sint (of_nat n :: 32 word) = int n"
  using sint_word_of_int_32 [of "int n"] by simp

text \<open>The head of a data record: type byte and count.\<close>

lemma parseData_array:
  assumes n: "int (length ws) < 2 ^ 31"
    and ty: "ty = 0x69 \<or> ty = 0x66"
  shows "parseData (pre @ (ty # le32 (of_nat (length ws)) @ concat (map le32 ws)) @ rest)
           (int (length pre))
         = Inr (if ty = 0x69 then map (\<lambda>w. PInt (sint w)) ws else map PFloat ws,
                int (length pre) + 5 + 4 * int (length ws))"
proof -
  let ?buf = "pre @ (ty # le32 (of_nat (length ws)) @ concat (map le32 ws)) @ rest"
  have b0: "unpack_byte ?buf (int (length pre)) = Inr ty"
    using unpack_byte_at [of pre ty] by simp
  have dec: "decode_utf8_byte ty = Inr (unat ty)" "unat ty = 0x69 \<or> unat ty = 0x66"
    using ty by (auto simp: decode_utf8_byte_def)
  have "unpack_i ((pre @ [ty]) @ le32 (of_nat (length ws)) @ (concat (map le32 ws) @ rest))
          (int (length (pre @ [ty]))) = Inr (sint (of_nat (length ws) :: 32 word))"
    by (rule unpack_i_at)
  then have cnt: "unpack_i ?buf (int (length pre) + 1) = Inr (int (length ws))"
    using sint_count [OF n] by (simp add: add.commute)
  have "unpack_from (4 * length ws)
          ((pre @ ty # le32 (of_nat (length ws))) @ concat (map le32 ws) @ rest)
          (int (length (pre @ ty # le32 (of_nat (length ws)))))
        = Inr (concat (map le32 ws))"
    by (rule unpack_from_at) (simp add: length_concat_le32)
  then have payload: "unpack_from (4 * length ws) ?buf (int (length pre) + 1 + 4)
        = Inr (concat (map le32 ws))"
    by (simp add: add.commute add.left_commute)
  have w: "words_le (concat (map le32 ws)) = ws"
    using words_le_concat [of ws "[]"] by simp
  show ?thesis
    unfolding parseData_def Let_def b0 bind_err_simps dec(1) cnt
    using ty payload w
    by auto
qed

lemma parseData_string:
  assumes s: "latin1 s" and n: "int (length s) + 1 < 2 ^ 31"
  shows "parseData (pre @ (0x73 # le32 1 @ le32 (of_nat (length s + 1)) @ map of_nat s @ [0]) @ rest)
           (int (length pre))
         = Inr ([PStr s], int (length pre) + 9 + (int (length s) + 1))"
proof -
  let ?buf = "pre @ (0x73 # le32 1 @ le32 (of_nat (length s + 1)) @ map of_nat s @ [0]) @ rest"
  have b0: "unpack_byte ?buf (int (length pre)) = Inr 0x73"
    using unpack_byte_at [of pre "0x73"] by simp
  have dec: "decode_utf8_byte 0x73 = Inr 0x73"
    by (simp add: decode_utf8_byte_def)
  have "unpack_i ((pre @ [0x73]) @ le32 1 @ (le32 (of_nat (length s + 1)) @ map of_nat s @ [0] @ rest))
          (int (length (pre @ [0x73 :: byte]))) = Inr (sint (1 :: 32 word))"
    by (rule unpack_i_at)
  then have cnt: "unpack_i ?buf (int (length pre) + 1) = Inr 1"
    by (simp add: add.commute)
  have "unpack_i ((pre @ 0x73 # le32 1) @ le32 (of_nat (length s + 1)) @ (map of_nat s @ [0] @ rest))
          (int (length (pre @ 0x73 # le32 1))) = Inr (sint (of_nat (length s + 1) :: 32 word))"
    by (rule unpack_i_at)
  moreover have "sint (of_nat (length s + 1) :: 32 word) = int (length s) + 1"
    using sint_count [of "length s + 1"] n by simp
  ultimately have len: "unpack_i ?buf (int (length pre) + 1 + 4) = Inr (int (length s) + 1)"
    by (simp add: add.commute add.left_commute)
  have "parseString ((pre @ 0x73 # le32 1 @ le32 (of_nat (length s + 1))) @ (map of_nat s @ [0]) @ rest)
          (int (length (pre @ 0x73 # le32 1 @ le32 (of_nat (length s + 1))))) (int (length s) + 1)
        = Inr s"
    by (rule parseString_data [OF s])
  then have str: "parseString ?buf (int (length pre) + 1 + 4 + 4) (int (length s) + 1) = Inr s"
    by (simp add: add.commute add.left_commute)
  show ?thesis
    unfolding parseData_def Let_def b0 bind_err_simps dec cnt len str
    by simp
qed

lemma length_concat_le32_comp:
  "length (concat (map (le32 \<circ> f) v)) = 4 * length v"
  by (induction v) simp_all

lemma parseData_spec:
  assumes "valid_value v"
  shows "parseData (pre @ spec_data_bytes v @ rest) (int (length pre))
         = Inr (v, int (length pre) + int (length (spec_data_bytes v)))"
proof (cases v)
  case Nil
  with assms show ?thesis by (simp add: valid_value_def)
next
  case (Cons x xs)
  show ?thesis
  proof (cases x)
    case (PInt i)
    with Cons assms have v: "list_all int32 v" "int (length v) < 2 ^ 31"
      by (simp_all add: valid_value_def)
    let ?ws = "map (\<lambda>x. case x of PInt i \<Rightarrow> (word_of_int i :: 32 word) | _ \<Rightarrow> 0) v"
    have sp: "spec_data_bytes v = 0x69 # le32 (of_nat (length ?ws)) @ concat (map le32 ?ws)"
      using spec_data_bytes_simps(2) [of i xs] ints_payload [OF v(1)] Cons PInt by simp
    have "parseData (pre @ (0x69 # le32 (of_nat (length ?ws)) @ concat (map le32 ?ws)) @ rest)
           (int (length pre))
         = Inr (if (0x69 :: byte) = 0x69 then map (\<lambda>w. PInt (sint w)) ?ws else map PFloat ?ws,
                int (length pre) + 5 + 4 * int (length ?ws))"
      by (rule parseData_array) (use v in simp_all)
    then show ?thesis
      unfolding sp using ints_back [OF v(1)] by (simp add: length_concat_le32 length_concat_le32_comp)
  next
    case (PFloat w)
    with Cons assms have v: "list_all is_float v" "int (length v) < 2 ^ 31"
      by (simp_all add: valid_value_def)
    let ?ws = "map (\<lambda>x. case x of PFloat w \<Rightarrow> w | _ \<Rightarrow> 0) v"
    have sp: "spec_data_bytes v = 0x66 # le32 (of_nat (length ?ws)) @ concat (map le32 ?ws)"
      using spec_data_bytes_simps(3) [of w xs] floats_payload [OF v(1)] Cons PFloat by simp
    have "parseData (pre @ (0x66 # le32 (of_nat (length ?ws)) @ concat (map le32 ?ws)) @ rest)
           (int (length pre))
         = Inr (if (0x66 :: byte) = 0x69 then map (\<lambda>w. PInt (sint w)) ?ws else map PFloat ?ws,
                int (length pre) + 5 + 4 * int (length ?ws))"
      by (rule parseData_array) (use v in simp_all)
    then show ?thesis
      unfolding sp using floats_back [OF v(1)] by (simp add: length_concat_le32 length_concat_le32_comp)
  next
    case (PStr s)
    with Cons assms have v: "v = [PStr s]" "latin1 s" "int (length s) + 1 < 2 ^ 31"
      by (simp_all add: valid_value_def)
    show ?thesis
      unfolding v(1) spec_data_bytes_simps using parseData_string [OF v(2,3), of pre rest]
      by simp
  qed
qed

lemma int32_facts: "int32 x \<Longrightarrow> is_int x" "int32 x \<Longrightarrow> type_of x = TyInt"
  by (cases x; simp)+

lemma is_float_type: "is_float x \<Longrightarrow> type_of x = TyFloat"
  by (cases x) simp_all

lemma pack_is_ok: "list_all int32 v \<Longrightarrow> \<exists>bs. pack_is v = Inr bs"
proof (induction v)
  case Nil show ?case by simp
next
  case (Cons x v) then show ?case by (cases x) (auto simp: pack_i_def)
qed

lemma pack_fs_ok: "list_all is_float v \<Longrightarrow> \<exists>bs. pack_fs v = Inr bs"
proof (induction v)
  case Nil show ?case by simp
next
  case (Cons x v) then show ?case by (cases x) auto
qed

lemma writeData_valid:
  assumes "valid_value v"
  shows "writeData v = Inr (spec_data_bytes v)"
proof -
  have "\<exists>bs. writeData v = Inr bs"
  proof (cases v)
    case Nil
    with assms show ?thesis by (simp add: valid_value_def)
  next
    case (Cons x xs)
    show ?thesis
    proof (cases x)
      case (PInt i)
      with Cons assms have v: "list_all int32 v" "int (length v) < 2 ^ 31"
        by (simp_all add: valid_value_def)
      have ty: "type_of ` set v = {TyInt}"
        using v(1) Cons int32_facts(2) by (fastforce simp: list_all_iff)
      have isint: "list_all is_int v"
        using v(1) int32_facts(1) by (auto simp: list_all_iff)
      have "\<exists>bs. pack_is v = Inr bs"
        using v(1) by (rule pack_is_ok)
      then show ?thesis
        using ty isint v(2) by (auto simp: writeData_def pack_i_def)
    next
      case (PFloat w)
      with Cons assms have v: "list_all is_float v" "int (length v) < 2 ^ 31"
        by (simp_all add: valid_value_def)
      have ty: "type_of ` set v = {TyFloat}"
        using v(1) Cons is_float_type by (fastforce simp: list_all_iff)
      have nis: "\<not> list_all is_int v"
        using Cons PFloat by simp
      have "\<exists>bs. pack_fs v = Inr bs"
        using v(1) by (rule pack_fs_ok)
      then show ?thesis
        using ty nis v by (auto simp: writeData_def pack_i_def)
    next
      case (PStr s)
      with Cons assms have v: "v = [PStr s]" "latin1 s" "int (length s) + 1 < 2 ^ 31"
        by (simp_all add: valid_value_def)
      then show ?thesis
        by (simp add: writeData_def pack_i_def writeString_def encode_latin1_def latin1_def
            list_all_iff)
    qed
  qed
  then show ?thesis using writeData_bytes by blast
qed

lemma parseProperty_spec:
  assumes k: "valid_key k" and v: "valid_value v"
  shows "parseProperty (pre @ spec_property_bytes k v @ rest) (int (length pre))
         = Inr (k, v, int (length pre) + int (length (spec_property_bytes k v)))"
proof -
  let ?buf = "pre @ spec_property_bytes k v @ rest"
  have buf: "?buf = pre @ 0x21 # of_nat (length k) # map of_nat k @ spec_data_bytes v @ rest"
    by (simp add: spec_property_bytes_def)
  from k have len: "length k \<le> 127" by (simp add: valid_key_def)
  have "unpack_byte ((pre @ [0x21]) @ of_nat (length k) # (map of_nat k @ spec_data_bytes v @ rest))
          (int (length (pre @ [0x21 :: byte]))) = Inr (of_nat (length k))"
    by (rule unpack_byte_at)
  then have b1: "unpack_byte ?buf (int (length pre) + 1) = Inr (of_nat (length k))"
    unfolding buf by (simp add: add.commute)
  have sl: "sint (of_nat (length k) :: byte) = int (length k)"
    using sint_byte_of_int [of "int (length k)"] len by simp
  have "parseString ((pre @ [0x21, of_nat (length k)]) @ map of_nat k @ (spec_data_bytes v @ rest))
          (int (length (pre @ [0x21, of_nat (length k) :: byte]))) (int (length k)) = Inr k"
    by (rule parseString_key [OF k])
  then have nm: "parseString ?buf (int (length pre) + 1 + 1) (int (length k)) = Inr k"
    unfolding buf by (simp add: add.commute add.left_commute)
  have "parseData ((pre @ 0x21 # of_nat (length k) # map of_nat k) @ spec_data_bytes v @ rest)
          (int (length (pre @ 0x21 # of_nat (length k) # (map of_nat k :: bytes))))
        = Inr (v, int (length (pre @ 0x21 # of_nat (length k) # (map of_nat k :: bytes)))
                  + int (length (spec_data_bytes v)))"
    by (rule parseData_spec [OF v])
  then have dat: "parseData ?buf (int (length pre) + 1 + 1 + int (length k))
        = Inr (v, int (length pre) + 1 + 1 + int (length k) + int (length (spec_data_bytes v)))"
    unfolding buf by (simp add: add.commute add.left_commute)
  show ?thesis
    unfolding parseProperty_def Let_def b1 bind_err_simps sl nm dat
    by (simp add: spec_property_bytes_def)
qed

lemma parseObject_spec:
  assumes "valid_tag name"
  shows "parseObject (pre @ spec_object_bytes d name @ rest) (int (length pre))
         = Inr (name, d, int (length pre) + int (length (spec_object_bytes d name)))"
  using parseObject_token [OF assms, of pre d rest]
  by (simp add: spec_object_bytes_def)

lemma write_token_valid:
  assumes "valid_token tok"
  shows "write_token tok = Inr (spec_token_bytes tok)"
proof (cases tok)
  case (TObj d n)
  with assms show ?thesis
    using write_token_TObj [of n d] by (simp add: spec_object_bytes_def)
next
  case (TProp k vo)
  with assms obtain v where v: "vo = Some v" "valid_key k" "valid_value v"
    by (cases vo) simp_all
  then have "pack_b (int (length k)) = Inr [of_nat (length k)]" "writeString k = Inr (map of_nat k)"
    by (simp_all add: valid_key_def pack_b_def writeString_def encode_latin1_def latin1_def
        list_all_iff)
  then show ?thesis
    using TProp v writeData_valid [OF v(3)]
    by (simp add: writeProperty_def spec_property_bytes_def)
qed

lemma write_tokens_valid:
  "list_all valid_token toks \<Longrightarrow> write_tokens toks = Inr (concat (map spec_token_bytes toks))"
  by (induction toks) (simp_all add: write_token_valid del: write_token.simps)

subsection \<open>The loop on a stream of well-formed tokens\<close>

lemma decode_utf8_byte_bang [simp]: "decode_utf8_byte 0x21 = Inr 0x21"
  by (simp add: decode_utf8_byte_def)

lemma read_loop_end:
  "read_loop fdata (int (length fdata)) st = Some (Inr (file_element st))"
  by (subst read_loop.simps) simp

lemma read_loop_object:
  assumes "valid_tag name" "0 < d"
  shows "read_loop (pre @ spec_object_bytes d name @ rest) (int (length pre)) st
         = (case object_branch name d st of
              Inl e \<Rightarrow> Some (Inl e)
            | Inr st' \<Rightarrow>
                read_loop (pre @ spec_object_bytes d name @ rest)
                  (int (length (pre @ spec_object_bytes d name))) st')"
proof -
  let ?buf = "pre @ spec_object_bytes d name @ rest"
  obtain tl where tl: "spec_object_bytes d name @ rest = 0x5B # tl"
    using assms(2) by (cases d) (simp_all add: spec_object_bytes_def)
  have b0: "unpack_byte ?buf (int (length pre)) = Inr 0x5B"
    unfolding tl by (rule unpack_byte_at)
  have lt: "int (length pre) < int (length ?buf)"
    unfolding tl by simp
  show ?thesis
    apply (subst read_loop.simps)
    apply (simp only: lt if_True b0 sum.case decode_utf8_byte_marker refl
        parseObject_spec [OF assms(1)] prod.case)
    apply (cases "object_branch name d st"; simp)
    done
qed

lemma read_loop_property:
  assumes "valid_key k" "valid_value v"
  shows "read_loop (pre @ spec_property_bytes k v @ rest) (int (length pre)) st
         = read_loop (pre @ spec_property_bytes k v @ rest)
             (int (length (pre @ spec_property_bytes k v))) (property_branch k v st)"
proof -
  let ?buf = "pre @ spec_property_bytes k v @ rest"
  obtain tl where tl: "spec_property_bytes k v @ rest = 0x21 # tl"
    by (simp add: spec_property_bytes_def)
  have b0: "unpack_byte ?buf (int (length pre)) = Inr 0x21"
    unfolding tl by (rule unpack_byte_at)
  have lt: "int (length pre) < int (length ?buf)"
    unfolding tl by simp
  show ?thesis
    apply (subst read_loop.simps)
    apply (simp only: lt if_True b0 sum.case decode_utf8_byte_bang
        parseProperty_spec [OF assms] prod.case)
    apply simp
    done
qed

lemma read_loop_tokens:
  assumes "list_all valid_token toks"
  shows "read_loop (pre @ concat (map spec_token_bytes toks)) (int (length pre)) st
         = (case run_tokens toks st of
              Inl e \<Rightarrow> Some (Inl e)
            | Inr st' \<Rightarrow> Some (Inr (file_element st')))"
  using assms
proof (induction toks arbitrary: pre st)
  case Nil
  show ?case using read_loop_end [of pre st] by simp
next
  case (Cons tok toks)
  then have tok: "valid_token tok" and toks: "list_all valid_token toks" by simp_all
  let ?rest = "concat (map spec_token_bytes toks)"
  show ?case
  proof (cases tok)
    case (TObj d name)
    with tok have v: "valid_tag name" "0 < d" by simp_all
    note step = read_loop_object [OF v, of pre ?rest st]
    note IH = Cons.IH [OF toks, of "pre @ spec_object_bytes d name", unfolded append_assoc]
    show ?thesis
      unfolding TObj list.map concat.simps spec_token_bytes.simps append_assoc step
        run_tokens.simps
      by (cases "object_branch name d st") (simp_all add: IH del: length_append)
  next
    case (TProp k vo)
    with tok obtain v where v: "vo = Some v" "valid_key k" "valid_value v"
      by (cases vo) simp_all
    note step = read_loop_property [OF v(2,3), of pre ?rest st]
    note IH = Cons.IH [OF toks, of "pre @ spec_property_bytes k v", unfolded append_assoc]
    show ?thesis
      unfolding TProp v(1) list.map concat.simps spec_token_bytes.simps append_assoc step
        run_tokens.simps IH ..
  qed
qed

lemma read_meshfile_tokens:
  assumes "list_all valid_token toks"
    and "fs p = Some (header @ concat (map spec_token_bytes toks))"
  shows "read_meshfile fs p
         = (case run_tokens toks initial_locals of
              Inl e \<Rightarrow> Some (Inl e)
            | Inr st' \<Rightarrow> Some (Inr (file_element st')))"
proof -
  let ?rest = "concat (map spec_token_bytes toks)"
  have h: "unpack_from 4 ([] @ header @ ?rest) (int (length ([] :: bytes))) = Inr header"
    by (rule unpack_from_at) (simp add: header_def)
  have ne: "header @ ?rest \<noteq> []" by (simp add: header_def)
  have "read_loop (header @ ?rest) (int (length header)) initial_locals
        = (case run_tokens toks initial_locals of
              Inl e \<Rightarrow> Some (Inl e)
            | Inr st' \<Rightarrow> Some (Inr (file_element st')))"
    by (rule read_loop_tokens [OF assms(1)])
  moreover have "int (length header) = 4" by (simp add: header_def)
  ultimately have loop: "read_loop (header @ ?rest) 4 initial_locals
        = (case run_tokens toks initial_locals of
              Inl e \<Rightarrow> Some (Inl e)
            | Inr st' \<Rightarrow> Some (Inr (file_element st')))"
    by simp
  from h have h': "unpack_from 4 (header @ ?rest) 0 = Inr header" by simp
  show ?thesis
    unfolding read_meshfile_def assms(2) option.case h' sum.case loop
    using ne by (simp only: if_False if_True refl)
qed

lemma object_branch_ok:
  assumes "depth_list st \<noteq> []" "0 < d"
  shows "\<exists>st'. object_branch name d st = Inr st' \<and> depth_list st' \<noteq> []"
proof -
  have "take d (depth_list st) \<noteq> []" using assms by (cases "depth_list st"; cases d) simp_all
  then show ?thesis
    by (auto simp: object_branch_def Let_def)
qed

lemma run_tokens_ok:
  assumes "list_all valid_token toks" "depth_list st \<noteq> []"
  shows "\<exists>st'. run_tokens toks st = Inr st' \<and> depth_list st' \<noteq> []"
  using assms
proof (induction toks arbitrary: st)
  case Nil then show ?case by simp
next
  case (Cons tok toks)
  show ?case
  proof (cases tok)
    case (TObj d name)
    with Cons.prems have "0 < d" by simp
    then obtain st1 where "object_branch name d st = Inr st1" "depth_list st1 \<noteq> []"
      using object_branch_ok [OF Cons.prems(2)] by blast
    then show ?thesis
      using Cons.IH [of st1] Cons.prems(1) TObj by simp
  next
    case (TProp k vo)
    with Cons.prems obtain v where v: "vo = Some v" by (cases vo) simp_all
    have "depth_list (property_branch k v st) \<noteq> []"
      using Cons.prems(2) by (simp add: property_branch_def)
    then show ?thesis
      using Cons.IH [of "property_branch k v st"] Cons.prems(1) TProp v by simp
  qed
qed

section \<open>Claims about the reader\<close>



lemma unpack_from_errors: "unpack_from n b off = Inl e \<Longrightarrow> e = StructError"
  by (auto simp: unpack_from_def Let_def split: if_splits)

lemma unpack_byte_errors: "unpack_byte b off = Inl e \<Longrightarrow> e = StructError"
  by (auto simp: unpack_byte_def split: sum.splits list.splits dest: unpack_from_errors)

lemma unpack_i_errors: "unpack_i b off = Inl e \<Longrightarrow> e = StructError"
  by (auto simp: unpack_i_def split: sum.splits list.splits dest: unpack_from_errors)

lemma parseString_errors: "parseString b off n = Inl e \<Longrightarrow> e = StructError \<or> e = IndexError"
  by (auto simp: parseString_def Let_def bind_err_Inl_iff split: if_splits dest: unpack_from_errors)

lemma decode_utf8_byte_errors: "decode_utf8_byte c = Inl e \<Longrightarrow> e = UnicodeDecodeError"
  by (auto simp: decode_utf8_byte_def split: if_splits)

lemma unpack_byte_nth:
  assumes "0 \<le> pos" "pos < int (length fdata)"
  shows "unpack_byte fdata pos = Inr (fdata ! nat pos)"
proof -
  have "nat pos < length fdata" using assms by simp
  then have "drop (nat pos) fdata = fdata ! nat pos # drop (Suc (nat pos)) fdata"
    by (rule Cons_nth_drop_Suc [symmetric])
  then have "take 1 (drop (nat pos) fdata) = [fdata ! nat pos]"
    by simp
  then show ?thesis
    using assms by (simp add: unpack_byte_def unpack_from_def)
qed

lemma words_le_4: "length bs = 4 \<Longrightarrow> \<exists>w. words_le bs = [w]"
proof -
  assume "length bs = 4"
  then obtain a b c d where "bs = [a, b, c, d]"
    by (cases bs; cases "tl bs"; cases "tl (tl bs)"; cases "tl (tl (tl bs))") auto
  then show ?thesis by simp
qed

lemma unpack_i_ok:
  assumes "0 \<le> pos" "pos + 4 \<le> int (length fdata)"
  shows "\<exists>n. unpack_i fdata pos = Inr n"
proof -
  have "unpack_from 4 fdata pos = Inr (take 4 (drop (nat pos) fdata))"
    using assms by (simp add: unpack_from_def)
  moreover have "length (take 4 (drop (nat pos) fdata)) = 4"
    using assms by simp
  ultimately show ?thesis
    using words_le_4 by (fastforce simp: unpack_i_def)
qed

lemma parseData_unknown_type:
  assumes "0 \<le> pos" "pos + 5 \<le> int (length fdata)" "fdata ! nat pos = ty"
    "ty < 0x80" "ty \<noteq> 0x69" "ty \<noteq> 0x66" "ty \<noteq> 0x73"
  shows "parseData fdata pos = Inl NotImplementedError"
proof -
  have b: "unpack_byte fdata pos = Inr ty"
    using unpack_byte_nth [of pos fdata] assms(1-3) by simp
  have d: "decode_utf8_byte ty = Inr (unat ty)"
    using assms(4) by (simp add: decode_utf8_byte_def)
  obtain n where n: "unpack_i fdata (pos + 1) = Inr n"
    using unpack_i_ok [of "pos + 1" fdata] assms(1,2) by auto
  have rt: "of_nat (unat ty) = ty" by simp
  have ne: "unat ty \<noteq> 0x69" "unat ty \<noteq> 0x66" "unat ty \<noteq> 0x73"
  proof -
    show "unat ty \<noteq> 0x69" using assms(5) rt by (metis of_nat_numeral)
    show "unat ty \<noteq> 0x66" using assms(6) rt by (metis of_nat_numeral)
    show "unat ty \<noteq> 0x73" using assms(7) rt by (metis of_nat_numeral)
  qed
  show ?thesis
    unfolding parseData_def Let_def b bind_err_simps d n using ne by simp
qed

lemma read_meshfile_bad_header:
  assumes "fs p = Some fdata" "4 \<le> length fdata" "take 4 fdata \<noteq> header"
  shows "read_meshfile fs p = Some (Inl NotImplementedError)"
proof -
  have "fdata \<noteq> []" using assms(2) by auto
  moreover have "unpack_from 4 fdata 0 = Inr (take 4 fdata)"
    using assms(2) by (simp add: unpack_from_def)
  ultimately show ?thesis using assms(1,3) by (simp add: read_meshfile_def)
qed

lemma read_meshfile_short:
  assumes "fs p = Some fdata" "fdata \<noteq> []" "length fdata < 4"
  shows "read_meshfile fs p = Some (Inl StructError)"
proof -
  have "unpack_from 4 fdata 0 = Inl StructError"
    using assms(3) by (simp add: unpack_from_def)
  then show ?thesis using assms(1,2) by (simp add: read_meshfile_def)
qed

lemma read_loop_unknown_token:
  assumes "0 \<le> pos" "pos < int (length fdata)" "fdata ! nat pos = c"
    "c < 0x80" "c \<noteq> 0x5B" "c \<noteq> 0x21"
  shows "read_loop fdata pos st = Some (Inl NotImplementedError)"
proof -
  have b: "unpack_byte fdata pos = Inr c"
    using unpack_byte_nth [of pos fdata] assms(1-3) by simp
  have d: "decode_utf8_byte c = Inr (unat c)"
    using assms(4) by (simp add: decode_utf8_byte_def)
  have rt: "of_nat (unat c) = c" by simp
  have ne: "unat c \<noteq> 0x5B" "unat c \<noteq> 0x21"
  proof -
    show "unat c \<noteq> 0x5B" using assms(5) rt by (metis of_nat_numeral)
    show "unat c \<noteq> 0x21" using assms(6) rt by (metis of_nat_numeral)
  qed
  show ?thesis
    apply (subst read_loop.simps)
    apply (simp only: assms(2) if_True b sum.case d)
    using ne apply simp
    done
qed

lemma parseData_NotImplemented_only:
  assumes "parseData fdata pos = Inl NotImplementedError"
  shows "\<exists>ty. unpack_byte fdata pos = Inr ty \<and> ty \<noteq> 0x69 \<and> ty \<noteq> 0x66 \<and> ty \<noteq> 0x73"
proof -
  obtain ty where b: "unpack_byte fdata pos = Inr ty"
    using assms unpack_byte_errors [of fdata pos]
    by (cases "unpack_byte fdata pos") (auto simp: parseData_def)
  obtain ch where d: "decode_utf8_byte ty = Inr ch" and ch: "ch = unat ty"
    using assms b decode_utf8_byte_errors [of ty]
    by (cases "decode_utf8_byte ty") (auto simp: parseData_def decode_utf8_byte_def split: if_splits)
  obtain n where n: "unpack_i fdata (pos + 1) = Inr n"
    using assms b d unpack_i_errors [of fdata "pos + 1"]
    by (cases "unpack_i fdata (pos + 1)") (auto simp: parseData_def Let_def)
  have "ch \<noteq> 0x69 \<and> ch \<noteq> 0x66 \<and> ch \<noteq> 0x73"
    using assms unfolding parseData_def Let_def b bind_err_simps d n
    by (auto simp: bind_err_Inl_iff dest: unpack_from_errors unpack_i_errors parseString_errors
        split: if_splits)
  then have "ty \<noteq> 0x69 \<and> ty \<noteq> 0x66 \<and> ty \<noteq> 0x73"
    unfolding ch by auto
  with b show ?thesis by blast
qed





subsection \<open>The loop builds what its tokens say\<close>

lemma read_loop_scan:
  assumes "read_loop fdata pos st = Some (Inr t)"
  shows "\<exists>toks st'. scan_tokens fdata pos = Some (Inr toks) \<and> run_tokens toks st = Inr st'
           \<and> file_element st' = t"
proof -
  note r = read_loop.raw_induct
      [where P = "\<lambda>fdata pos st y. \<forall>t. y = Inr t \<longrightarrow>
          (\<exists>toks st'. scan_tokens fdata pos = Some (Inr toks) \<and> run_tokens toks st = Inr st'
             \<and> file_element st' = t)", OF _ assms]
  have "\<forall>t'. (Inr t :: error + element) = Inr t' \<longrightarrow>
          (\<exists>toks st'. scan_tokens fdata pos = Some (Inr toks) \<and> run_tokens toks st = Inr st'
             \<and> file_element st' = t')"
  proof (rule r, goal_cases)
    case (1 read_loop' fdata pos st y)
    show ?case
    proof (intro allI impI)
      fix t assume y: "y = Inr t"
      show "\<exists>toks st'. scan_tokens fdata pos = Some (Inr toks) \<and> run_tokens toks st = Inr st'
             \<and> file_element st' = t"
      proof (cases "pos < int (length fdata)")
        case False
        with 1(2) y have "file_element st = t" by simp
        moreover have "scan_tokens fdata pos = Some (Inr [])"
          using False by (subst scan_tokens.simps) simp
        ultimately show ?thesis by auto
      next
        case True
        from 1(2) True y obtain c ch where c: "unpack_byte fdata pos = Inr c"
          and ch: "decode_utf8_byte c = Inr ch"
          by (auto split: sum.splits)
        consider (is_object) "ch = 0x5B" | (is_property) "ch \<noteq> 0x5B" "ch = 0x21"
          using 1(2) True y c ch by (auto split: if_splits)
        then show ?thesis
        proof cases
          case is_object
          from 1(2) True y c ch is_object obtain name d pos' st1 where
            po: "parseObject fdata pos = Inr (name, d, pos')"
            and ob: "object_branch name d st = Inr st1"
            and rec: "read_loop' fdata pos' st1 = Some (Inr t)"
            by (auto split: sum.splits prod.splits)
          from 1(1) [OF rec, rule_format, OF refl] obtain toks st' where
            IH: "scan_tokens fdata pos' = Some (Inr toks)" "run_tokens toks st1 = Inr st'"
              "file_element st' = t"
            by blast
          have "scan_tokens fdata pos = Some (Inr (TObj d name # toks))"
            using True c ch is_object po IH(1) by (subst scan_tokens.simps) simp
          moreover have "run_tokens (TObj d name # toks) st = Inr st'"
            using ob IH(2) by simp
          ultimately show ?thesis using IH(3) by blast
        next
          case is_property
          from 1(2) True y c ch is_property obtain k v pos' where
            pp: "parseProperty fdata pos = Inr (k, v, pos')"
            and rec: "read_loop' fdata pos' (property_branch k v st) = Some (Inr t)"
            by (auto split: sum.splits prod.splits)
          from 1(1) [OF rec, rule_format, OF refl] obtain toks st' where
            IH: "scan_tokens fdata pos' = Some (Inr toks)"
              "run_tokens toks (property_branch k v st) = Inr st'"
              "file_element st' = t"
            by blast
          have "scan_tokens fdata pos = Some (Inr (TProp k (Some v) # toks))"
            using True c ch is_property pp IH(1) by (subst scan_tokens.simps) simp
          moreover have "run_tokens (TProp k (Some v) # toks) st = Inr st'"
            using IH(2) by simp
          ultimately show ?thesis using IH(3) by blast
        qed
      qed
    qed
  qed
  then show ?thesis by blast
qed

subsection \<open>The tree under construction\<close>

lemma rightmost_take: "rightmost p t \<Longrightarrow> rightmost (take k p) t"
proof (induction p arbitrary: t k)
  case Nil then show ?case by simp
next
  case (Cons i p) then show ?case by (cases k) simp_all
qed

lemma SubElement_rightmost:
  "rightmost q t \<Longrightarrow> SubElement q name t = graft (length q) (Element name [] []) t"
proof (induction q arbitrary: t)
  case Nil then show ?case by simp
next
  case (Cons i q)
  then have cs: "children t \<noteq> []" and i: "i = length (children t) - 1"
    and r: "rightmost q (last (children t))" by simp_all
  have "children t ! i = last (children t)" using cs i by (simp add: last_conv_nth)
  moreover have "(children t)[i := x] = butlast (children t) @ [x]" for x
    using cs i by (metis append_butlast_last_id length_butlast list_update_length)
  ultimately show ?case using Cons.IH [OF r] by simp
qed

lemma len_at_rightmost:
  "rightmost q t \<Longrightarrow> rightmost (q @ [len_at q t]) (SubElement q name t)"
proof (induction q arbitrary: t)
  case Nil then show ?case by simp
next
  case (Cons i q)
  then have cs: "children t \<noteq> []" and i: "i = length (children t) - 1"
    and r: "rightmost q (last (children t))" by simp_all
  have nth: "children t ! i = last (children t)" using cs i by (simp add: last_conv_nth)
  have upd: "(children t)[i := x] = butlast (children t) @ [x]" for x
    using cs i by (metis append_butlast_last_id length_butlast list_update_length)
  have 1: "SubElement (i # q) name t
      = Element (tag t) (attrib t)
          (butlast (children t) @ [SubElement q name (last (children t))])"
    by (simp add: nth upd)
  have 2: "len_at (i # q) t = len_at q (last (children t))"
    by (simp add: nth)
  have 3: "i = length (butlast (children t) @ [SubElement q name (last (children t))]) - 1"
    using i cs by simp
  show ?case
    unfolding append_Cons 1 2 rightmost.simps element.sel
    using Cons.IH [OF r] 3 by simp
qed

lemma levels_graft:
  "rightmost q t \<Longrightarrow> levels b (graft (length q) e t) = levels b t @ levels (Suc (b + length q)) e"
proof (induction q arbitrary: t b)
  case Nil
  show ?case by (cases t) simp
next
  case (Cons i q)
  then have cs: "children t \<noteq> []" and r: "rightmost q (last (children t))" by simp_all
  obtain name a cs' where t: "t = Element name a cs'" by (cases t)
  with cs have cs': "cs' = butlast cs' @ [last cs']" by simp
  have "levels b (graft (length (i # q)) e t)
      = (b, name) # concat (map (levels (Suc b)) (butlast cs'))
        @ levels (Suc b) (graft (length q) e (last cs'))"
    using t by simp
  also have "\<dots> = (b, name) # concat (map (levels (Suc b)) (butlast cs'))
        @ levels (Suc b) (last cs') @ levels (Suc (Suc b + length q)) e"
    using Cons.IH [OF r, of "Suc b"] t by simp
  also have "\<dots> = levels b (Element name a (butlast cs' @ [last cs'])) @ levels (Suc (b + length (i # q))) e"
    by simp
  finally show ?case using t cs' by simp
qed

lemma rightmost_children_cong:
  "children e = children e' \<Longrightarrow> rightmost p e = rightmost p e'"
  by (cases p) simp_all

lemma rightmost_set_attrib: "rightmost p (set_attrib q k v t) = rightmost p t"
proof (induction q arbitrary: p t)
  case Nil
  show ?case by (rule rightmost_children_cong) simp
next
  case (Cons j q)
  show ?case
  proof (cases p)
    case Nil then show ?thesis by simp
  next
    case (Cons i p')
    show ?thesis
    proof (cases "j < length (children t)")
      case False
      then show ?thesis by (simp add: Cons list_update_beyond)
    next
      case True
      then have ne: "children t \<noteq> []" by auto
      have "last ((children t)[j := x]) = (if j = length (children t) - 1 then x else last (children t))" for x
        using True ne by (simp add: last_conv_nth nth_list_update)
      moreover have "j = length (children t) - 1 \<Longrightarrow> children t ! j = last (children t)"
        using ne by (simp add: last_conv_nth)
      ultimately show ?thesis
        using Cons.IH [of p' "last (children t)"] ne by (auto simp: Cons)
    qed
  qed
qed

lemma levels_tag_children:
  "tag e = tag e' \<Longrightarrow> children e = children e' \<Longrightarrow> levels b e = levels b e'"
  by (cases e; cases e') simp

lemma levels_set_attrib: "levels b (set_attrib q k v t) = levels b t"
proof (induction q arbitrary: t b)
  case Nil
  show ?case by (rule levels_tag_children) simp_all
next
  case (Cons j q)
  obtain name a cs where t: "t = Element name a cs" by (cases t)
  show ?case
  proof (cases "j < length cs")
    case False
    then show ?thesis using t by (simp add: list_update_beyond)
  next
    case True
    have "map (levels (Suc b)) (cs[j := set_attrib q k v (cs ! j)])
        = (map (levels (Suc b)) cs)[j := levels (Suc b) (set_attrib q k v (cs ! j))]"
      by (simp add: map_update)
    also have "\<dots> = (map (levels (Suc b)) cs)[j := map (levels (Suc b)) cs ! j]"
      using Cons.IH True by simp
    also have "\<dots> = map (levels (Suc b)) cs" by simp
    finally show ?thesis using t by simp
  qed
qed

lemma object_branch_inv:
  assumes inv: "reader_inv st" and d: "0 < d" "d \<le> Suc (current_depth st)"
  shows "\<exists>st'. object_branch name d st = Inr st' \<and> reader_inv st' \<and> current_depth st' = d
           \<and> file_element st' = graft (d - 1) (Element name [] []) (file_element st)"
proof -
  let ?rp = "parent_element st" and ?t = "file_element st" and ?cd = "current_depth st"
  let ?q = "take (d - 1) ?rp"
  let ?new = "?q @ [len_at ?q ?t]"
  from inv have rm: "rightmost ?rp ?t" and len: "length ?rp = ?cd"
    and dl: "depth_list st = map (\<lambda>i. take i ?rp) [0..<Suc ?cd]"
    by (simp_all add: reader_inv_def)
  have lq: "length ?q = d - 1" using len d by simp
  have rq: "rightmost ?q ?t" using rm by (rule rightmost_take)
  have tk: "take d (depth_list st) = map (\<lambda>i. take i ?rp) [0..<d]"
    unfolding dl take_map using d by (simp add: take_upt del: upt_Suc)
  have ne: "map (\<lambda>i. take i ?rp) [0..<d] \<noteq> []" using d by simp
  have lst: "last (map (\<lambda>i. take i ?rp) [0..<d]) = ?q"
    using d by (cases d) (simp_all add: last_map del: upt_Suc)
  have whole: "d = Suc ?cd \<Longrightarrow> depth_list st = map (\<lambda>i. take i ?rp) [0..<d] \<and> ?rp = ?q"
    using dl len by simp
  let ?st' = "\<lparr> file_element = SubElement ?q name ?t, parent_element = ?new,
                 depth_list = map (\<lambda>i. take i ?rp) [0..<d] @ [?new], current_depth = d \<rparr>"
  have ob: "object_branch name d st = Inr ?st'"
  proof (cases "d > ?cd")
    case True
    with d have "d = Suc ?cd" by simp
    with whole True show ?thesis
      by (simp add: object_branch_def Let_def)
  next
    case False
    then show ?thesis
      using tk ne lst by (simp add: object_branch_def Let_def)
  qed
  have pre: "map (\<lambda>i. take i ?rp) [0..<d] = map (\<lambda>i. take i ?new) [0..<d]"
    using lq by (auto simp: min_def)
  have "map (\<lambda>i. take i ?new) [0..<Suc d] = map (\<lambda>i. take i ?rp) [0..<d] @ [?new]"
    unfolding pre using lq d by simp
  moreover have "rightmost ?new (SubElement ?q name ?t)"
    using rq by (rule len_at_rightmost)
  moreover have "length ?new = d" using lq d by simp
  ultimately have "reader_inv ?st'" by (simp add: reader_inv_def)
  moreover have "SubElement ?q name ?t = graft (d - 1) (Element name [] []) ?t"
    using SubElement_rightmost [OF rq] lq by simp
  ultimately show ?thesis using ob by simp
qed

lemma property_branch_inv:
  "reader_inv st \<Longrightarrow> reader_inv (property_branch k v st)"
  by (simp add: reader_inv_def property_branch_def rightmost_set_attrib)

lemma rightmost_deep: "reader_inv st \<Longrightarrow> d \<le> Suc (current_depth st) \<Longrightarrow> 0 < d \<Longrightarrow>
  rightmost (take (d - 1) (parent_element st)) (file_element st)
  \<and> length (take (d - 1) (parent_element st)) = d - 1"
  by (auto simp: reader_inv_def intro: rightmost_take)

lemma run_tokens_levels:
  assumes "reader_inv st" "steady (current_depth st) (map fst (object_depths toks))"
  shows "\<exists>st'. run_tokens toks st = Inr st' \<and> reader_inv st'
           \<and> levels 0 (file_element st') = levels 0 (file_element st) @ object_depths toks"
  using assms
proof (induction toks arbitrary: st)
  case Nil then show ?case by simp
next
  case (Cons tok toks)
  show ?case
  proof (cases tok)
    case (TObj d name)
    with Cons.prems have d: "0 < d" "d \<le> Suc (current_depth st)"
      and rest: "steady d (map fst (object_depths toks))" by simp_all
    obtain st1 where st1: "object_branch name d st = Inr st1" "reader_inv st1"
      "current_depth st1 = d"
      "file_element st1 = graft (d - 1) (Element name [] []) (file_element st)"
      using object_branch_inv [OF Cons.prems(1) d] by blast
    have q: "rightmost (take (d - 1) (parent_element st)) (file_element st)"
      "length (take (d - 1) (parent_element st)) = d - 1"
      using rightmost_deep [OF Cons.prems(1) d(2,1)] by simp_all
    have lv: "levels 0 (file_element st1) = levels 0 (file_element st) @ [(d, name)]"
      using levels_graft [OF q(1), of 0 "Element name [] []"] q(2) d st1(4) by simp
    obtain st' where "run_tokens toks st1 = Inr st'" "reader_inv st'"
      "levels 0 (file_element st') = levels 0 (file_element st1) @ object_depths toks"
      using Cons.IH [of st1] st1(2,3) rest by auto
    then show ?thesis using st1(1) lv TObj by simp
  next
    case (TProp k vo)
    with Cons.prems have rest: "steady (current_depth st) (map fst (object_depths toks))" by simp
    show ?thesis
    proof (cases vo)
      case None
      then show ?thesis using Cons.IH [OF Cons.prems(1) rest] TProp by simp
    next
      case (Some v)
      have "reader_inv (property_branch k v st)"
        using Cons.prems(1) by (rule property_branch_inv)
      moreover have "current_depth (property_branch k v st) = current_depth st"
        "levels 0 (file_element (property_branch k v st)) = levels 0 (file_element st)"
        by (simp_all add: property_branch_def levels_set_attrib)
      ultimately show ?thesis
        using Cons.IH [of "property_branch k v st"] rest TProp Some by auto
    qed
  qed
qed

lemma read_meshfile_scan:
  assumes "read_meshfile fs p = Some (Inr t)" "fs p = Some fdata"
  shows "\<exists>toks st'. scan_tokens fdata 4 = Some (Inr toks)
           \<and> run_tokens toks initial_locals = Inr st' \<and> file_element st' = t"
proof -
  from assms have "read_loop fdata 4 initial_locals = Some (Inr t)"
    by (auto simp: read_meshfile_def split: if_splits sum.splits)
  then show ?thesis by (rule read_loop_scan)
qed

lemma reader_inv_initial: "reader_inv initial_locals"
  by (simp add: reader_inv_def initial_locals_def)




subsection \<open>The nodes in document order\<close>

lemma nodes_nonempty [simp]: "nodes t \<noteq> []"
  by (cases t) simp

lemma nodes_graft:
  "rightmost q t \<Longrightarrow> nodes (graft (length q) e t) = nodes t @ nodes e"
proof (induction q arbitrary: t)
  case Nil
  show ?case by (cases t) simp
next
  case (Cons i q)
  then have cs: "children t \<noteq> []" and r: "rightmost q (last (children t))" by simp_all
  obtain name a cs' where t: "t = Element name a cs'" by (cases t)
  with cs have cs': "cs' = butlast cs' @ [last cs']" by simp
  have "nodes (graft (length (i # q)) e t)
      = (name, a) # concat (map nodes (butlast cs')) @ nodes (graft (length q) e (last cs'))"
    using t by simp
  also have "\<dots> = (name, a) # concat (map nodes (butlast cs')) @ nodes (last cs') @ nodes e"
    using Cons.IH [OF r] t by simp
  also have "\<dots> = nodes t @ nodes e"
  proof -
    have "concat (map nodes cs') = concat (map nodes (butlast cs')) @ nodes (last cs')"
      by (subst cs') (simp del: append_butlast_last_id)
    then show ?thesis using t by simp
  qed
  finally show ?case .
qed

lemma nodes_SubElement:
  "rightmost q t \<Longrightarrow> nodes (SubElement q name t) = nodes t @ [(name, [])]"
  by (simp add: SubElement_rightmost nodes_graft)

lemma nodes_set_attrib:
  "rightmost p t \<Longrightarrow> len_at p t = 0 \<Longrightarrow>
   nodes (set_attrib p k v t)
     = butlast (nodes t) @ [(fst (last (nodes t)), AList.update k v (snd (last (nodes t))))]"
proof (induction p arbitrary: t)
  case Nil
  then show ?case by (cases t) simp
next
  case (Cons i p)
  then have cs: "children t \<noteq> []" and i: "i = length (children t) - 1"
    and r: "rightmost p (last (children t))" by simp_all
  obtain name a cs' where t: "t = Element name a cs'" by (cases t)
  with cs have cs': "cs' = butlast cs' @ [last cs']" by simp
  have nth: "cs' ! i = last cs'" using cs i t by (simp add: last_conv_nth)
  have upd: "cs'[i := x] = butlast cs' @ [x]" for x
    using cs i t by (metis append_butlast_last_id element.sel(3) length_butlast list_update_length)
  have l: "len_at p (last cs') = 0" using Cons.prems(2) nth t by simp
  have c: "concat (map nodes cs') = concat (map nodes (butlast cs')) @ nodes (last cs')"
    by (subst cs') (simp del: append_butlast_last_id)
  have "nodes (set_attrib (i # p) k v t)
      = (name, a) # concat (map nodes (butlast cs')) @ nodes (set_attrib p k v (last cs'))"
    using t nth upd by simp
  also have "nodes (set_attrib p k v (last cs'))
      = butlast (nodes (last cs'))
        @ [(fst (last (nodes (last cs'))), AList.update k v (snd (last (nodes (last cs')))))]"
    using Cons.IH [OF _ l] r t by simp
  finally show ?case using t c by (simp add: butlast_append)
qed

lemma len_at_SubElement:
  "rightmost q t \<Longrightarrow> len_at (q @ [len_at q t]) (SubElement q name t) = 0"
proof (induction q arbitrary: t)
  case Nil then show ?case by (simp add: nth_append)
next
  case (Cons i q)
  then have cs: "children t \<noteq> []" and i: "i = length (children t) - 1"
    and r: "rightmost q (last (children t))" by simp_all
  have nth: "children t ! i = last (children t)" using cs i by (simp add: last_conv_nth)
  have il: "i < length (children t)" using cs i by simp
  show ?case using Cons.IH [OF r] nth il by simp
qed

lemma len_at_set_attrib: "len_at p (set_attrib q k v t) = len_at p t"
proof (induction q arbitrary: p t)
  case Nil
  show ?case by (cases p) simp_all
next
  case (Cons j q)
  show ?case
  proof (cases p)
    case Nil then show ?thesis by simp
  next
    case (Cons i p')
    show ?thesis
    proof (cases "j < length (children t)")
      case False
      then show ?thesis using Cons by (simp add: list_update_beyond)
    next
      case True
      then show ?thesis using Cons Cons.IH by (cases "i = j") simp_all
    qed
  qed
qed

lemma is_prefix_refl: "is_prefix q q"
  by (simp add: is_prefix_def)

lemma is_prefix_snoc: "is_prefix q r \<Longrightarrow> is_prefix q (r @ [x])"
  by (metis is_prefix_def append_eq_conv_conj append_assoc append_take_drop_id)

lemma is_prefix_take: "is_prefix q r \<Longrightarrow> q = take (length q) r"
  by (simp add: is_prefix_def)

lemma sorted_wrt_last:
  "sorted_wrt is_prefix xs \<Longrightarrow> x \<in> set xs \<Longrightarrow> is_prefix x (last xs)"
proof (induction xs)
  case Nil then show ?case by simp
next
  case (Cons y ys)
  then show ?case by (cases "ys = []") (auto simp: is_prefix_refl)
qed

lemma chain_snoc:
  assumes "sorted_wrt is_prefix xs" "xs \<noteq> []"
  shows "sorted_wrt is_prefix (xs @ [last xs @ [x]])"
  using assms by (auto simp: sorted_wrt_append intro: is_prefix_snoc sorted_wrt_last)

lemma object_branch_attach:
  assumes inv: "attach_inv st" and ob: "object_branch name d st = Inr st'"
  shows "attach_inv st' \<and> nodes (file_element st') = nodes (file_element st) @ [(name, [])]"
proof -
  let ?t = "file_element st"
  from inv have rm: "rightmost (parent_element st) ?t"
    and ne: "depth_list st \<noteq> []" and la: "last (depth_list st) = parent_element st"
    and ch: "sorted_wrt is_prefix (depth_list st)"
    by (simp_all add: attach_inv_def)
  define dl where "dl = (if \<not> d > current_depth st then take d (depth_list st) else depth_list st)"
  have dne: "dl \<noteq> []" using ob ne
    by (auto simp: object_branch_def dl_def Let_def split: if_splits)
  have chd: "sorted_wrt is_prefix dl"
    using ch by (simp add: dl_def sorted_wrt_take)
  have "last dl \<in> set (depth_list st)"
    using dne by (metis dl_def in_set_takeD last_in_set)
  then have "is_prefix (last dl) (parent_element st)"
    using sorted_wrt_last [OF ch] la by simp
  then have rq: "rightmost (last dl) ?t"
    using rm by (metis is_prefix_take rightmost_take)
  have st': "st' = \<lparr> file_element = SubElement (last dl) name ?t,
           parent_element = last dl @ [len_at (last dl) ?t],
           depth_list = dl @ [last dl @ [len_at (last dl) ?t]],
           current_depth = d \<rparr>"
    using ob dne la
    by (auto simp: object_branch_def dl_def Let_def split: if_splits)
  show ?thesis
    unfolding st' attach_inv_def
    using rq dne chd
    by (simp add: len_at_rightmost len_at_SubElement nodes_SubElement chain_snoc)
qed

lemma property_branch_attach:
  assumes "attach_inv st"
  shows "attach_inv (property_branch k v st)
         \<and> nodes (file_element (property_branch k v st))
           = butlast (nodes (file_element st))
             @ [(fst (last (nodes (file_element st))),
                 AList.update k v (snd (last (nodes (file_element st)))))]"
  using assms
  by (simp add: attach_inv_def property_branch_def rightmost_set_attrib len_at_set_attrib
      nodes_set_attrib)

lemma run_tokens_attach:
  assumes "attach_inv st" "run_tokens toks st = Inr st'"
  shows "nodes (file_element st') = attach toks (nodes (file_element st))"
  using assms
proof (induction toks arbitrary: st)
  case Nil then show ?case by simp
next
  case (Cons tok toks)
  show ?case
  proof (cases tok)
    case (TObj d name)
    with Cons.prems(2) obtain st1 where ob: "object_branch name d st = Inr st1"
      and rt: "run_tokens toks st1 = Inr st'"
      by (auto simp: bind_err_Inr_iff)
    from object_branch_attach [OF Cons.prems(1) ob] Cons.IH [OF _ rt] TObj
    show ?thesis by simp
  next
    case (TProp k vo)
    show ?thesis
    proof (cases vo)
      case None
      with TProp Cons show ?thesis by simp
    next
      case (Some v)
      with TProp Cons.prems(2)
      have rt: "run_tokens toks (property_branch k v st) = Inr st'" by simp
      from property_branch_attach [OF Cons.prems(1), of k v] Cons.IH [OF _ rt] TProp Some
      show ?thesis by simp
    qed
  qed
qed

lemma attach_inv_initial: "attach_inv initial_locals"
  by (simp add: attach_inv_def initial_locals_def)

text \<open>
  C6. For every buffer \<open>read_meshfile\<close> accepts, with the tokens the loop has read
  (\<open>scan_tokens\<close>): the nodes of the returned tree, in document order, are the root \<open>File\<close>
  followed by one node for each object token in stream order, and the attributes of each
  node are exactly the property tokens read after its object token and before the next one,
  set in that order (\<open>attach\<close>); the property tokens before the first object token are the
  attributes of the root. This holds whatever the depths of the object tokens are, so also
  after deeper objects have been opened and closed.
\<close>

theorem property_attaches_to_latest_object:
  "read_meshfile fs p = Some (Inr t) \<Longrightarrow> fs p = Some fdata \<Longrightarrow>
   \<exists>toks. scan_tokens fdata 4 = Some (Inr toks)
     \<and> nodes t = attach toks [(ascii ''File'', [])]"
proof -
  assume a: "read_meshfile fs p = Some (Inr t)" "fs p = Some fdata"
  then obtain toks st' where s: "scan_tokens fdata 4 = Some (Inr toks)"
    and r: "run_tokens toks initial_locals = Inr st'" and t: "file_element st' = t"
    using read_meshfile_scan by blast
  from run_tokens_attach [OF attach_inv_initial r] t
  have "nodes t = attach toks [(ascii ''File'', [])]"
    by (simp add: initial_locals_def)
  with s show ?thesis by blast
qed

theorem property_attaches_to_latest_object_witness:
  "read_meshfile [''f'' \<mapsto> [0x40, 0x40, 0x62, 0x40,
      0x21, 1, 0x72, 0x69, 1, 0, 0, 0, 1, 0, 0, 0,
      0x5B, 0x61, 0,
      0x5B, 0x5B, 0x62, 0,
      0x21, 1, 0x78, 0x69, 1, 0, 0, 0, 2, 0, 0, 0,
      0x5B, 0x5B, 0x63, 0,
      0x21, 1, 0x79, 0x69, 1, 0, 0, 0, 3, 0, 0, 0,
      0x5B, 0x64, 0,
      0x21, 1, 0x7A, 0x69, 1, 0, 0, 0, 4, 0, 0, 0 :: byte]] ''f''
     = Some (Inr (Element (ascii ''File'') [(ascii ''r'', [PInt 1])]
      [Element (ascii ''a'') []
         [Element (ascii ''b'') [(ascii ''x'', [PInt 2])] [],
          Element (ascii ''c'') [(ascii ''y'', [PInt 3])] []],
       Element (ascii ''d'') [(ascii ''z'', [PInt 4])] []]))
   \<and> [''f'' \<mapsto> [0x40, 0x40, 0x62, 0x40,
      0x21, 1, 0x72, 0x69, 1, 0, 0, 0, 1, 0, 0, 0,
      0x5B, 0x61, 0,
      0x5B, 0x5B, 0x62, 0,
      0x21, 1, 0x78, 0x69, 1, 0, 0, 0, 2, 0, 0, 0,
      0x5B, 0x5B, 0x63, 0,
      0x21, 1, 0x79, 0x69, 1, 0, 0, 0, 3, 0, 0, 0,
      0x5B, 0x64, 0,
      0x21, 1, 0x7A, 0x69, 1, 0, 0, 0, 4, 0, 0, 0 :: byte]] ''f''
     = Some [0x40, 0x40, 0x62, 0x40,
      0x21, 1, 0x72, 0x69, 1, 0, 0, 0, 1, 0, 0, 0,
      0x5B, 0x61, 0,
      0x5B, 0x5B, 0x62, 0,
      0x21, 1, 0x78, 0x69, 1, 0, 0, 0, 2, 0, 0, 0,
      0x5B, 0x5B, 0x63, 0,
      0x21, 1, 0x79, 0x69, 1, 0, 0, 0, 3, 0, 0, 0,
      0x5B, 0x64, 0,
      0x21, 1, 0x7A, 0x69, 1, 0, 0, 0, 4, 0, 0, 0 :: byte]
   \<and> scan_tokens [0x40, 0x40, 0x62, 0x40,
      0x21, 1, 0x72, 0x69, 1, 0, 0, 0, 1, 0, 0, 0,
      0x5B, 0x61, 0,
      0x5B, 0x5B, 0x62, 0,
      0x21, 1, 0x78, 0x69, 1, 0, 0, 0, 2, 0, 0, 0,
      0x5B, 0x5B, 0x63, 0,
      0x21, 1, 0x79, 0x69, 1, 0, 0, 0, 3, 0, 0, 0,
      0x5B, 0x64, 0,
      0x21, 1, 0x7A, 0x69, 1, 0, 0, 0, 4, 0, 0, 0 :: byte] 4
     = Some (Inr [TProp (ascii ''r'') (Some [PInt 1]), TObj 1 (ascii ''a''), TObj 2 (ascii ''b''),
      TProp (ascii ''x'') (Some [PInt 2]), TObj 2 (ascii ''c''),
      TProp (ascii ''y'') (Some [PInt 3]), TObj 1 (ascii ''d''),
      TProp (ascii ''z'') (Some [PInt 4])])
   \<and> nodes (Element (ascii ''File'') [(ascii ''r'', [PInt 1])]
      [Element (ascii ''a'') []
         [Element (ascii ''b'') [(ascii ''x'', [PInt 2])] [],
          Element (ascii ''c'') [(ascii ''y'', [PInt 3])] []],
       Element (ascii ''d'') [(ascii ''z'', [PInt 4])] []])
     = attach [TProp (ascii ''r'') (Some [PInt 1]), TObj 1 (ascii ''a''), TObj 2 (ascii ''b''),
      TProp (ascii ''x'') (Some [PInt 2]), TObj 2 (ascii ''c''),
      TProp (ascii ''y'') (Some [PInt 3]), TObj 1 (ascii ''d''),
      TProp (ascii ''z'') (Some [PInt 4])] [(ascii ''File'', [])]
   \<and> nodes (Element (ascii ''File'') [(ascii ''r'', [PInt 1])]
      [Element (ascii ''a'') []
         [Element (ascii ''b'') [(ascii ''x'', [PInt 2])] [],
          Element (ascii ''c'') [(ascii ''y'', [PInt 3])] []],
       Element (ascii ''d'') [(ascii ''z'', [PInt 4])] []])
     = [(ascii ''File'', [(ascii ''r'', [PInt 1])]), (ascii ''a'', []),
      (ascii ''b'', [(ascii ''x'', [PInt 2])]), (ascii ''c'', [(ascii ''y'', [PInt 3])]),
      (ascii ''d'', [(ascii ''z'', [PInt 4])])]"
proof -
  let ?b = "[0x40, 0x40, 0x62, 0x40,
      0x21, 1, 0x72, 0x69, 1, 0, 0, 0, 1, 0, 0, 0,
      0x5B, 0x61, 0,
      0x5B, 0x5B, 0x62, 0,
      0x21, 1, 0x78, 0x69, 1, 0, 0, 0, 2, 0, 0, 0,
      0x5B, 0x5B, 0x63, 0,
      0x21, 1, 0x79, 0x69, 1, 0, 0, 0, 3, 0, 0, 0,
      0x5B, 0x64, 0,
      0x21, 1, 0x7A, 0x69, 1, 0, 0, 0, 4, 0, 0, 0 :: byte]"
  let ?t = "Element (ascii ''File'') [(ascii ''r'', [PInt 1])]
      [Element (ascii ''a'') []
         [Element (ascii ''b'') [(ascii ''x'', [PInt 2])] [],
          Element (ascii ''c'') [(ascii ''y'', [PInt 3])] []],
       Element (ascii ''d'') [(ascii ''z'', [PInt 4])] []]"
  let ?toks = "[TProp (ascii ''r'') (Some [PInt 1]), TObj 1 (ascii ''a''), TObj 2 (ascii ''b''),
      TProp (ascii ''x'') (Some [PInt 2]), TObj 2 (ascii ''c''),
      TProp (ascii ''y'') (Some [PInt 3]), TObj 1 (ascii ''d''),
      TProp (ascii ''z'') (Some [PInt 4])]"
  have r: "read_meshfile [''f'' \<mapsto> ?b] ''f'' = Some (Inr ?t)"
    by code_simp
  have f: "[''f'' \<mapsto> ?b] ''f'' = Some ?b"
    by simp
  have s: "scan_tokens ?b 4 = Some (Inr ?toks)"
    by code_simp
  from property_attaches_to_latest_object [where fs = "[''f'' \<mapsto> ?b]" and p = "''f''", OF r f] s
  have a: "nodes ?t = attach ?toks [(ascii ''File'', [])]"
    by auto
  have n: "nodes ?t = [(ascii ''File'', [(ascii ''r'', [PInt 1])]), (ascii ''a'', []),
      (ascii ''b'', [(ascii ''x'', [PInt 2])]), (ascii ''c'', [(ascii ''y'', [PInt 3])]),
      (ascii ''d'', [(ascii ''z'', [PInt 4])])]"
    by simp
  from r f s a n show ?thesis by blast
qed

end
